theory Spec2Isabelle
  imports Complex_Main
begin

section \<open>JavaScript values used by the module\<close>

text \<open>
  A JavaScript number is a finite value, \<open>NaN\<close> or one of the two infinities. A finite
  value is the real number that the double stands for.
\<close>

datatype jsnum = NaN | PosInf | NegInf | Fin real

text \<open>The primitive values that a field of the configuration can hold.\<close>

datatype jsval = JUndefined | JNull | JBool bool | JNum jsnum | JStr string

text \<open>ToBoolean: the values that \<open>||\<close>, \<open>&&\<close> and \<open>if\<close> treat as true.\<close>

fun num_truthy :: "jsnum \<Rightarrow> bool" where
  "num_truthy NaN = False"
| "num_truthy (Fin x) = (x \<noteq> 0)"
| "num_truthy PosInf = True"
| "num_truthy NegInf = True"

fun truthy :: "jsval \<Rightarrow> bool" where
  "truthy JUndefined = False"
| "truthy JNull = False"
| "truthy (JBool b) = b"
| "truthy (JNum n) = num_truthy n"
| "truthy (JStr s) = (s \<noteq> [])"

section \<open>Built-ins of the language\<close>

text \<open>
  Three built-ins are taken as parameters, since their values depend on the binary
  representation of numbers: the conversion of a string to a number (StringToNumber), the
  rounding of a real quotient to the nearest double, which the operator \<open>/\<close> applies to its
  exact result, and \<open>String(n)\<close> for an integer \<open>n\<close> from \<open>2^53\<close> on, where it prints the
  shortest digits that read back as the same double.
\<close>

record builtins =
  bi_str2num :: "string \<Rightarrow> jsnum"
  bi_round :: "real \<Rightarrow> real"
  bi_String_big :: "nat \<Rightarrow> string"

section \<open>Decimal printing: \<open>String(n)\<close> and \<open>padStart\<close>\<close>

definition digit_char :: "nat \<Rightarrow> char" where
  "digit_char d = ''0123456789'' ! d"

fun dec :: "nat \<Rightarrow> string" where
  "dec n = (if n < 10 then [digit_char n] else dec (n div 10) @ [digit_char (n mod 10)])"

declare dec.simps [simp del]

definition is_digit :: "char \<Rightarrow> bool" where
  "is_digit c = (c \<in> set ''0123456789'')"

definition digit_val :: "char \<Rightarrow> nat" where
  "digit_val c = length (takeWhile (\<lambda>d. d \<noteq> c) ''0123456789'')"

definition dec_val :: "string \<Rightarrow> nat" where
  "dec_val ds = foldl (\<lambda>a c. 10 * a + digit_val c) 0 ds"

text \<open>
  \<open>String(n)\<close> for a non-negative integer \<open>n\<close>: every integer below \<open>2^53\<close> is a double of
  its own, and is printed with all its decimal digits.
\<close>

definition String_num :: "builtins \<Rightarrow> nat \<Rightarrow> string" where
  "String_num bi n = (if n < 2 ^ 53 then dec n else bi_String_big bi n)"

definition padStart :: "nat \<Rightarrow> char \<Rightarrow> string \<Rightarrow> string" where
  "padStart n c s = replicate (n - length s) c @ s"

section \<open>formatHMS\<close>

definition pad :: "builtins \<Rightarrow> nat \<Rightarrow> string" where
  "pad bi n = padStart 2 CHR ''0'' (String_num bi n)"

text \<open>
  \<open>Math.floor\<close> of a non-negative double is a non-negative integer, and \<open>%\<close> on such
  integers is exact.
\<close>

definition formatHMS :: "builtins \<Rightarrow> jsnum \<Rightarrow> string" where
  "formatHMS bi d =
     (let ms = (case d of Fin x \<Rightarrow> if x < 0 then 0 else x | _ \<Rightarrow> 0);
          total = nat \<lfloor>bi_round bi (ms / 1000)\<rfloor>;
          h = nat \<lfloor>bi_round bi (real total / 3600)\<rfloor>;
          m = nat \<lfloor>bi_round bi (real (total mod 3600) / 60)\<rfloor>;
          s = total mod 60
      in pad bi h @ '':'' @ pad bi m @ '':'' @ pad bi s)"

section \<open>Configuration (\<open>init\<close>, \<open>configUpdated\<close>)\<close>

text \<open>
  \<open>Number(v)\<close>, with the conversion of a string as the parameter \<open>str2num\<close>.
\<close>

fun Number :: "(string \<Rightarrow> jsnum) \<Rightarrow> jsval \<Rightarrow> jsnum" where
  "Number str2num JUndefined = NaN"
| "Number str2num JNull = Fin 0"
| "Number str2num (JBool b) = Fin (if b then 1 else 0)"
| "Number str2num (JNum n) = n"
| "Number str2num (JStr s) = str2num s"

text \<open>The object handed to \<open>init\<close> and \<open>configUpdated\<close>; \<open>None\<close> is a null or undefined
  argument, a missing field is \<open>JUndefined\<close>.\<close>

record config_in =
  in_host :: jsval
  in_port :: jsval

record config =
  host :: jsval
  port :: jsnum

definition effective_config :: "(string \<Rightarrow> jsnum) \<Rightarrow> config_in option \<Rightarrow> config" where
  "effective_config str2num c =
     (let h = (case c of None \<Rightarrow> JUndefined | Some ci \<Rightarrow> in_host ci);
          p = Number str2num (case c of None \<Rightarrow> JUndefined | Some ci \<Rightarrow> in_port ci)
      in \<lparr> host = (if truthy h then h else JStr ''127.0.0.1''),
           port = (if num_truthy p then p else Fin 13376) \<rparr>)"

section \<open>Scene names\<close>

text \<open>
  Text is a sequence of bytes, the UTF-8 encoding of the JavaScript string (well-formed, so
  that a character starts only where its first byte stands). The regular expression is
  \<open>/\s*\(.*?\)\s*$/\<close>. \<open>\s\<close> is one white space character or line terminator: TAB, LF,
  VT, FF, CR, SP; U+00A0; U+1680, U+2000 to U+200A, U+2028, U+2029, U+202F, U+205F, U+3000
  and U+FEFF. \<open>.\<close> is any character but a line terminator (LF, CR, U+2028, U+2029); \<open>$\<close> is
  the end of the input (no \<open>m\<close> flag).
\<close>

definition ws1 :: "string list" where
  "ws1 = [[CHR 0x09], [CHR 0x0A], [CHR 0x0B], [CHR 0x0C], [CHR 0x0D], [CHR 0x20]]"

definition ws2 :: "string list" where
  "ws2 = [[CHR 0xC2, CHR 0xA0]]"

definition ws3 :: "string list" where
  "ws3 = [[CHR 0xE1, CHR 0x9A, CHR 0x80],
          [CHR 0xE2, CHR 0x80, CHR 0x80], [CHR 0xE2, CHR 0x80, CHR 0x81],
          [CHR 0xE2, CHR 0x80, CHR 0x82], [CHR 0xE2, CHR 0x80, CHR 0x83],
          [CHR 0xE2, CHR 0x80, CHR 0x84], [CHR 0xE2, CHR 0x80, CHR 0x85],
          [CHR 0xE2, CHR 0x80, CHR 0x86], [CHR 0xE2, CHR 0x80, CHR 0x87],
          [CHR 0xE2, CHR 0x80, CHR 0x88], [CHR 0xE2, CHR 0x80, CHR 0x89],
          [CHR 0xE2, CHR 0x80, CHR 0x8A],
          [CHR 0xE2, CHR 0x80, CHR 0xA8], [CHR 0xE2, CHR 0x80, CHR 0xA9],
          [CHR 0xE2, CHR 0x80, CHR 0xAF], [CHR 0xE2, CHR 0x81, CHR 0x9F],
          [CHR 0xE3, CHR 0x80, CHR 0x80], [CHR 0xEF, CHR 0xBB, CHR 0xBF]]"

text \<open>The number of bytes of the \<open>\s\<close> character at the head of the text, 0 when there is
  none.\<close>

definition ws_len :: "string \<Rightarrow> nat" where
  "ws_len s = (if take 1 s \<in> set ws1 then 1
               else if take 2 s \<in> set ws2 then 2
               else if take 3 s \<in> set ws3 then 3 else 0)"

text \<open>\<open>\s*\<close>, greedy: the text after the longest run of \<open>\s\<close> characters at its head.\<close>

function skip_space :: "string \<Rightarrow> string" where
  "skip_space s = (if ws_len s = 0 then s else skip_space (drop (ws_len s) s))"
  by pat_completeness auto
termination
proof (relation "measure length")
  show "wf (measure length)"
    by simp
next
  fix s :: string
  assume a: "ws_len s \<noteq> 0"
  have "ws_len [] = 0"
    by (simp add: ws_len_def ws1_def ws2_def ws3_def)
  with a have "s \<noteq> []"
    by auto
  with a show "(drop (ws_len s) s, s) \<in> measure length"
    by simp
qed

declare skip_space.simps [simp del]

text \<open>\<open>\s*$\<close>: the text consists of \<open>\s\<close> characters only.\<close>

definition all_space :: "string \<Rightarrow> bool" where
  "all_space s = (skip_space s = [])"

definition starts_line_terminator :: "string \<Rightarrow> bool" where
  "starts_line_terminator s =
     (take 1 s \<in> set [[CHR 0x0A], [CHR 0x0D]]
      \<or> take 3 s \<in> set [[CHR 0xE2, CHR 0x80, CHR 0xA8], [CHR 0xE2, CHR 0x80, CHR 0xA9]])"

text \<open>No line terminator starts anywhere in the text.\<close>

fun no_line_terminator :: "string \<Rightarrow> bool" where
  "no_line_terminator [] = True"
| "no_line_terminator (c # cs) = (\<not> starts_line_terminator (c # cs) \<and> no_line_terminator cs)"

text \<open>\<open>.*?\)\s*$\<close>: the lazy star first tries to stop here, then takes one more byte of a
  character that is not a line terminator.\<close>

fun paren_rest :: "string \<Rightarrow> bool" where
  "paren_rest [] = False"
| "paren_rest (c # cs) =
     (if c = CHR '')'' \<and> all_space cs then True
      else if starts_line_terminator (c # cs) then False
      else paren_rest cs)"

text \<open>Whether the whole expression matches with the match starting at the head of the text.\<close>

definition match_at :: "string \<Rightarrow> bool" where
  "match_at t = (case skip_space t of [] \<Rightarrow> False
                 | c # cs \<Rightarrow> c = CHR ''('' \<and> paren_rest cs)"

text \<open>\<open>s.replace(re, '')\<close>: the leftmost match is removed; it always runs to the end.\<close>

fun strip_paren :: "string \<Rightarrow> string" where
  "strip_paren [] = []"
| "strip_paren (c # cs) = (if match_at (c # cs) then [] else c # strip_paren cs)"

text \<open>An element of the array given to \<open>_ingestScenes\<close>; a missing or null name is \<open>None\<close>.\<close>

record raw_scene =
  rs_id :: string
  rs_name :: "string option"

record scene =
  sc_id :: string
  sc_name :: string

text \<open>\<open>scene.name || scene.id\<close>\<close>

definition name_or_id :: "raw_scene \<Rightarrow> string" where
  "name_or_id sc = (case rs_name sc of None \<Rightarrow> rs_id sc
                    | Some n \<Rightarrow> if n = [] then rs_id sc else n)"

definition cleanName :: "raw_scene \<Rightarrow> string" where
  "cleanName sc = strip_paren (name_or_id sc)"

text \<open>
  The plain object \<open>this.scenes\<close>: its own properties in the order of their creation, and
  its prototype. An assignment replaces the value of an existing property in place or
  appends a new property; an assignment of an object to the key \<open>__proto__\<close> creates no
  property: it makes that object the prototype.
\<close>

fun obj_set :: "'k \<Rightarrow> 'v \<Rightarrow> ('k \<times> 'v) list \<Rightarrow> ('k \<times> 'v) list" where
  "obj_set k v [] = [(k, v)]"
| "obj_set k v ((k', v') # kvs) =
     (if k = k' then (k, v) # kvs else (k', v') # obj_set k v kvs)"

definition obj_assign ::
  "string \<Rightarrow> 'v \<Rightarrow> (string \<times> 'v) list \<times> 'v option \<Rightarrow> (string \<times> 'v) list \<times> 'v option" where
  "obj_assign k v obj =
     (if k = ''__proto__'' then (fst obj, Some v) else (obj_set k v (fst obj), snd obj))"

definition ingest_loop :: "raw_scene list \<Rightarrow> (string \<times> scene) list \<times> scene option" where
  "ingest_loop arr =
     fold (\<lambda>sc acc. obj_assign (rs_id sc) \<lparr> sc_id = rs_id sc, sc_name = cleanName sc \<rparr> acc)
       arr ([], None)"

text \<open>
  The order in which the own properties are listed (\<open>for ... in\<close>, \<open>Object.values\<close>): the
  array indices, which are the keys that are the decimal form of a number below
  \<open>2^32 - 1\<close>, in ascending order, then the other keys in the order of their creation.
\<close>

definition is_array_index :: "string \<Rightarrow> bool" where
  "is_array_index k =
     (k \<noteq> [] \<and> list_all is_digit k \<and> dec (dec_val k) = k \<and> dec_val k < 2 ^ 32 - 1)"

definition own_entries :: "(string \<times> 'v) list \<Rightarrow> (string \<times> 'v) list" where
  "own_entries kvs =
     sort_key (\<lambda>e. dec_val (fst e)) (filter (\<lambda>e. is_array_index (fst e)) kvs)
     @ filter (\<lambda>e. \<not> is_array_index (fst e)) kvs"

text \<open>
  After the own keys, \<open>for ... in\<close> lists the keys of the prototype that no own property
  hides: \<open>id\<close> and \<open>name\<close> when the prototype is a stored scene.
\<close>

definition inherited_keys :: "(string \<times> 'v) list \<Rightarrow> 'v option \<Rightarrow> string list" where
  "inherited_keys kvs proto =
     (case proto of None \<Rightarrow> []
      | Some p \<Rightarrow> filter (\<lambda>k. k \<notin> set (map fst kvs)) [''id'', ''name''])"

text \<open>
  The reading of the name rule in the specification, for comparison: one trailing
  parenthetical group, from the last opening parenthesis to the closing one that ends the
  name, is removed together with the white space before it.
\<close>

definition spec_strip_group :: "string \<Rightarrow> string" where
  "spec_strip_group s =
     (case rev s of [] \<Rightarrow> s
      | c # r \<Rightarrow> if c \<noteq> CHR '')'' then s
                 else (case dropWhile (\<lambda>x. x \<noteq> CHR ''('') r of [] \<Rightarrow> s
                       | p # r' \<Rightarrow> rev (dropWhile (\<lambda>x. [x] \<in> set ws1) r')))"

section \<open>The module instance and its host\<close>

datatype status = StConnecting | StOk | StDisconnected | StConnectionFailure string

datatype level = LvDebug | LvInfo | LvWarn | LvError

datatype logmsg =
    LogConnecting jsval jsnum
  | LogConfigUpdated jsval jsnum
  | LogChannelInitFailed
  | LogNoSceneSource

datatype timer_kind = RecordTick | StreamTick

text \<open>An entry of \<open>session.items\<close>; an absent type or name is the empty string.\<close>

record item =
  it_type :: string
  it_name :: string

text \<open>
  The remote root object \<open>channel.objects.meld\<close>: the names of its function-valued
  properties, the names of its signals (properties with a \<open>connect\<close>), its two state
  properties, and \<open>session.items\<close> (\<open>None\<close> when \<open>session\<close> or \<open>session.items\<close> is falsy).
\<close>

record proxy =
  methods :: "string list"
  signals :: "string list"
  p_isRecording :: jsval
  p_isStreaming :: jsval
  session_items :: "(string \<times> item) list option"

text \<open>
  The fields of \<open>MeldStudioInstance\<close> (\<open>this.scenes\<close> as its own properties and its
  prototype, \<open>None\<close> for the prototype of every plain object), followed by what the instance has handed to its
  environment: the interval timers that are set and not cleared, the delays of the one-shot
  timers that are scheduled and have not fired, the sockets that have not yet emitted
  \<open>close\<close>, the sockets whose channel has not yet completed its handshake, the statuses and log lines reported, the published variable values, the
  definitions given to the host, and the remote methods invoked. Handles of timers and
  sockets are numbers drawn from \<open>next_id\<close>.
\<close>

record state =
  ws :: "nat option"
  qweb :: "proxy option"
  config :: config
  scenes :: "(string \<times> scene) list"
  scenes_proto :: "scene option"
  currentSceneId :: "string option"
  isRecording :: bool
  isStreaming :: bool
  recordStart :: "nat option"
  streamStart :: "nat option"
  recordTimer :: "nat option"
  streamTimer :: "nat option"
  intervals :: "(nat \<times> timer_kind) list"
  pending :: "nat list"
  open_sockets :: "nat list"
  channels :: "nat list"
  next_id :: nat
  status :: "status list"
  logs :: "(level \<times> logmsg) list"
  variables :: "string \<rightharpoonup> string"
  action_defs :: "string list"
  preset_defs :: "string list"
  feedback_choices :: "(string \<times> string) list"
  subscriptions :: "string list"
  remote_calls :: "(string \<times> string list) list"

definition init_state :: state where
  "init_state =
     \<lparr> ws = None, qweb = None,
       config = \<lparr> host = JStr ''127.0.0.1'', port = Fin 13376 \<rparr>,
       scenes = [], scenes_proto = None, currentSceneId = None,
       isRecording = False, isStreaming = False,
       recordStart = None, streamStart = None,
       recordTimer = None, streamTimer = None,
       intervals = [], pending = [], open_sockets = [], channels = [], next_id = 0,
       status = [], logs = [], variables = Map.empty,
       action_defs = [], preset_defs = [], feedback_choices = [],
       subscriptions = [], remote_calls = [] \<rparr>"

definition updateStatus :: "status \<Rightarrow> state \<Rightarrow> state" where
  "updateStatus st s = s\<lparr> status := status s @ [st] \<rparr>"

definition log_msg :: "level \<Rightarrow> logmsg \<Rightarrow> state \<Rightarrow> state" where
  "log_msg lv m s = s\<lparr> logs := logs s @ [(lv, m)] \<rparr>"

definition setVariableValue :: "string \<Rightarrow> string \<Rightarrow> state \<Rightarrow> state" where
  "setVariableValue k v s = s\<lparr> variables := (variables s)(k \<mapsto> v) \<rparr>"

definition call_remote :: "string \<Rightarrow> string list \<Rightarrow> state \<Rightarrow> state" where
  "call_remote m args s = s\<lparr> remote_calls := remote_calls s @ [(m, args)] \<rparr>"

definition has_method :: "proxy \<Rightarrow> string \<Rightarrow> bool" where
  "has_method q m = (m \<in> set (methods q))"

definition clearInterval :: "nat \<Rightarrow> state \<Rightarrow> state" where
  "clearInterval h s = s\<lparr> intervals := filter (\<lambda>e. fst e \<noteq> h) (intervals s) \<rparr>"

definition setInterval :: "timer_kind \<Rightarrow> state \<Rightarrow> nat \<times> state" where
  "setInterval k s =
     (next_id s, s\<lparr> intervals := intervals s @ [(next_id s, k)], next_id := Suc (next_id s) \<rparr>)"

section \<open>Internal timers\<close>

definition stopRecordTimer :: "state \<Rightarrow> state" where
  "stopRecordTimer s =
     (case recordTimer s of None \<Rightarrow> s
      | Some h \<Rightarrow> (clearInterval h s)\<lparr> recordTimer := None \<rparr>)"

definition stopStreamTimer :: "state \<Rightarrow> state" where
  "stopStreamTimer s =
     (case streamTimer s of None \<Rightarrow> s
      | Some h \<Rightarrow> (clearInterval h s)\<lparr> streamTimer := None \<rparr>)"

text \<open>\<open>now\<close> is the value of \<open>Date.now()\<close> when the operation runs.\<close>

definition startRecording :: "nat \<Rightarrow> state \<Rightarrow> state" where
  "startRecording now s =
     (let s1 = s\<lparr> isRecording := True, recordStart := Some now \<rparr>;
          s2 = stopRecordTimer s1;
          (h, s3) = setInterval RecordTick s2
      in s3\<lparr> recordTimer := Some h \<rparr>)"

definition stopRecording :: "state \<Rightarrow> state" where
  "stopRecording s =
     setVariableValue ''recording_timecode'' ''00:00:00''
       (stopRecordTimer (s\<lparr> isRecording := False \<rparr>))"

definition startStreaming :: "nat \<Rightarrow> state \<Rightarrow> state" where
  "startStreaming now s =
     (let s1 = s\<lparr> isStreaming := True, streamStart := Some now \<rparr>;
          s2 = stopStreamTimer s1;
          (h, s3) = setInterval StreamTick s2
      in s3\<lparr> streamTimer := Some h \<rparr>)"

definition stopStreaming :: "state \<Rightarrow> state" where
  "stopStreaming s =
     setVariableValue ''streaming_timecode'' ''00:00:00''
       (stopStreamTimer (s\<lparr> isStreaming := False \<rparr>))"

definition onRecordingStateChange :: "bool \<Rightarrow> nat \<Rightarrow> state \<Rightarrow> state" where
  "onRecordingStateChange active now s =
     (if active \<and> \<not> isRecording s then startRecording now s
      else if \<not> active \<and> isRecording s then stopRecording s
      else s)"

definition onStreamingStateChange :: "bool \<Rightarrow> nat \<Rightarrow> state \<Rightarrow> state" where
  "onStreamingStateChange active now s =
     (if active \<and> \<not> isStreaming s then startStreaming now s
      else if \<not> active \<and> isStreaming s then stopStreaming s
      else s)"

text \<open>\<open>Date.now() - (start || Date.now())\<close>: a null or zero start counts as now.\<close>

definition elapsed :: "nat \<Rightarrow> nat option \<Rightarrow> jsnum" where
  "elapsed now start =
     Fin (real_of_int (int now - int (case start of None \<Rightarrow> now
                                       | Some t \<Rightarrow> if t = 0 then now else t)))"

text \<open>The callbacks given to \<open>setInterval\<close>.\<close>

definition record_tick :: "builtins \<Rightarrow> nat \<Rightarrow> state \<Rightarrow> state" where
  "record_tick bi now s =
     setVariableValue ''recording_timecode'' (formatHMS bi (elapsed now (recordStart s))) s"

definition stream_tick :: "builtins \<Rightarrow> nat \<Rightarrow> state \<Rightarrow> state" where
  "stream_tick bi now s =
     setVariableValue ''streaming_timecode'' (formatHMS bi (elapsed now (streamStart s))) s"

section \<open>Scenes, actions, feedbacks, presets\<close>

text \<open>
  \<open>_defineActions\<close> and \<open>_definePresets\<close> run \<open>for (const id in this.scenes)\<close>. For an
  inherited key \<open>this.scenes[id]\<close> is a string, whose \<open>name\<close> is undefined.
\<close>

definition defineActions :: "state \<Rightarrow> state" where
  "defineActions s =
     s\<lparr> action_defs :=
          map (\<lambda>k. ''show_scene_'' @ k)
            (map fst (own_entries (scenes s)) @ inherited_keys (scenes s) (scenes_proto s))
          @ [''toggle_stream'', ''start_stream'', ''stop_stream'',
             ''toggle_record'', ''start_record'', ''stop_record''] \<rparr>"

definition defineFeedbacks :: "state \<Rightarrow> state" where
  "defineFeedbacks s = s\<lparr> feedback_choices := [] \<rparr>"

definition refreshFeedbackChoices :: "state \<Rightarrow> state" where
  "refreshFeedbackChoices s =
     s\<lparr> feedback_choices :=
          map (\<lambda>e. (sc_id (snd e), sc_name (snd e))) (own_entries (scenes s)) \<rparr>"

definition definePresets :: "state \<Rightarrow> state" where
  "definePresets s =
     s\<lparr> preset_defs :=
          map (\<lambda>e. ''Scene: '' @ sc_name (snd e)) (own_entries (scenes s))
          @ map (\<lambda>k. ''Scene: undefined'') (inherited_keys (scenes s) (scenes_proto s))
          @ [''Toggle Streaming'', ''Toggle Recording'', ''Start Streaming'',
             ''Stop Streaming'', ''Start Recording'', ''Stop Recording''] \<rparr>"

text \<open>\<open>scenesArray || []\<close>: a null or undefined argument is \<open>None\<close>.\<close>

definition ingestScenes :: "raw_scene list option \<Rightarrow> state \<Rightarrow> state" where
  "ingestScenes scenesArray s =
     (let obj = ingest_loop (case scenesArray of None \<Rightarrow> [] | Some arr \<Rightarrow> arr)
      in definePresets (refreshFeedbackChoices (defineActions
           (s\<lparr> scenes := fst obj, scenes_proto := snd obj \<rparr>))))"

text \<open>The scenes read from \<open>session.items\<close>.\<close>

definition items_scenes :: "(string \<times> item) list \<Rightarrow> raw_scene list" where
  "items_scenes items =
     map (\<lambda>e. \<lparr> rs_id = fst e,
                rs_name = Some (if it_name (snd e) = [] then fst e else it_name (snd e)) \<rparr>)
       (filter (\<lambda>e. it_type (snd e) = ''scene'') items)"

text \<open>With \<open>getScenes\<close> the scenes arrive later, through the callback (\<open>ingestScenes\<close>).\<close>

definition refreshScenes :: "state \<Rightarrow> state" where
  "refreshScenes s =
     (case qweb s of None \<Rightarrow> s
      | Some q \<Rightarrow>
          if has_method q ''getScenes'' then call_remote ''getScenes'' [] s
          else (case session_items q of
                  Some items \<Rightarrow> ingestScenes (Some (items_scenes items)) s
                | None \<Rightarrow> log_msg LvWarn LogNoSceneSource s))"

section \<open>Action callbacks\<close>

datatype action =
    ShowScene string
  | ToggleStream | StartStream | StopStream
  | ToggleRecord | StartRecord | StopRecord

text \<open>The remote part of each callback.\<close>

fun remote_part :: "action \<Rightarrow> state \<Rightarrow> state" where
  "remote_part (ShowScene i) s =
     (case qweb s of None \<Rightarrow> s
      | Some q \<Rightarrow> if has_method q ''showScene'' then call_remote ''showScene'' [i] s
                  else if has_method q ''switchScene'' then call_remote ''switchScene'' [i] s
                  else s)"
| "remote_part ToggleStream s =
     (case qweb s of None \<Rightarrow> s
      | Some q \<Rightarrow> if has_method q ''toggleStream'' then call_remote ''toggleStream'' [] s
                  else if has_method q ''toggleStreaming'' then call_remote ''toggleStreaming'' [] s
                  else s)"
| "remote_part StartStream s =
     (case qweb s of None \<Rightarrow> s
      | Some q \<Rightarrow> if has_method q ''startStream'' then call_remote ''startStream'' [] s else s)"
| "remote_part StopStream s =
     (case qweb s of None \<Rightarrow> s
      | Some q \<Rightarrow> if has_method q ''stopStream'' then call_remote ''stopStream'' [] s else s)"
| "remote_part ToggleRecord s =
     (case qweb s of None \<Rightarrow> s
      | Some q \<Rightarrow> if has_method q ''toggleRecord'' then call_remote ''toggleRecord'' [] s
                  else if has_method q ''toggleRecording'' then call_remote ''toggleRecording'' [] s
                  else s)"
| "remote_part StartRecord s =
     (case qweb s of None \<Rightarrow> s
      | Some q \<Rightarrow> if has_method q ''startRecord'' then call_remote ''startRecord'' [] s else s)"
| "remote_part StopRecord s =
     (case qweb s of None \<Rightarrow> s
      | Some q \<Rightarrow> if has_method q ''stopRecord'' then call_remote ''stopRecord'' [] s else s)"

text \<open>The local part, run after the remote part.\<close>

fun local_part :: "action \<Rightarrow> nat \<Rightarrow> state \<Rightarrow> state" where
  "local_part (ShowScene i) now s = s"
| "local_part ToggleStream now s = (if isStreaming s then stopStreaming s else startStreaming now s)"
| "local_part StartStream now s = (if \<not> isStreaming s then startStreaming now s else s)"
| "local_part StopStream now s = (if isStreaming s then stopStreaming s else s)"
| "local_part ToggleRecord now s = (if isRecording s then stopRecording s else startRecording now s)"
| "local_part StartRecord now s = (if \<not> isRecording s then startRecording now s else s)"
| "local_part StopRecord now s = (if isRecording s then stopRecording s else s)"

definition action_id :: "action \<Rightarrow> string" where
  "action_id a =
     (case a of ShowScene i \<Rightarrow> ''show_scene_'' @ i
      | ToggleStream \<Rightarrow> ''toggle_stream'' | StartStream \<Rightarrow> ''start_stream''
      | StopStream \<Rightarrow> ''stop_stream'' | ToggleRecord \<Rightarrow> ''toggle_record''
      | StartRecord \<Rightarrow> ''start_record'' | StopRecord \<Rightarrow> ''stop_record'')"

definition action_callback :: "action \<Rightarrow> nat \<Rightarrow> state \<Rightarrow> state" where
  "action_callback a now s = local_part a now (remote_part a s)"

section \<open>Connection\<close>

definition reconnect_delay :: nat where
  "reconnect_delay = 3000"

text \<open>
  \<open>_connect\<close>. \<open>ws.close()\<close> on the previous socket only starts its closing: that socket
  emits \<open>close\<close> later, as an event of its own. \<open>ctor\<close> is the outcome of
  \<open>new WebSocket(url)\<close>: \<open>None\<close> when it returns, the message of the exception when it
  throws.
\<close>

definition connect :: "string option \<Rightarrow> state \<Rightarrow> state" where
  "connect ctor s =
     (let s1 = (case ws s of None \<Rightarrow> s | Some w \<Rightarrow> s\<lparr> ws := None \<rparr>);
          s2 = log_msg LvInfo (LogConnecting (host (config s1)) (port (config s1))) s1
      in case ctor of
           None \<Rightarrow> s2\<lparr> ws := Some (next_id s2),
                        open_sockets := open_sockets s2 @ [next_id s2],
                        next_id := Suc (next_id s2) \<rparr>
         | Some msg \<Rightarrow>
             updateStatus (StConnectionFailure (if msg = [] then ''Connect failed'' else msg)) s2)"

text \<open>The handler of the socket's \<open>close\<close> event.\<close>

definition on_close :: "state \<Rightarrow> state" where
  "on_close s =
     (let s1 = updateStatus StDisconnected s;
          s2 = stopRecordTimer s1;
          s3 = stopStreamTimer s2
      in s3\<lparr> pending := pending s3 @ [reconnect_delay] \<rparr>)"

text \<open>The handler of the socket's \<open>error\<close> event (\<open>err?.message\<close>, \<open>None\<close> when absent).\<close>

definition on_error :: "string option \<Rightarrow> state \<Rightarrow> state" where
  "on_error msg s =
     updateStatus (StConnectionFailure
       (case msg of None \<Rightarrow> ''WebSocket error''
        | Some m \<Rightarrow> if m = [] then ''WebSocket error'' else m)) s"

text \<open>The handler of \<open>open\<close> of socket \<open>k\<close>: \<open>ok\<close> tells whether the \<open>QWebChannel\<close>
  constructor returns.\<close>

definition on_open :: "nat \<Rightarrow> bool \<Rightarrow> state \<Rightarrow> state" where
  "on_open k ok s =
     (if ok then s\<lparr> channels := channels s @ [k] \<rparr>
      else log_msg LvError LogChannelInitFailed
             (updateStatus (StConnectionFailure ''QWebChannel init failed'') s))"

text \<open>The callback of the handshake, with \<open>channel.objects.meld\<close> (\<open>None\<close> when undefined).\<close>

definition subscribe :: "string \<Rightarrow> state \<Rightarrow> state" where
  "subscribe sig s =
     (case qweb s of None \<Rightarrow> s
      | Some q \<Rightarrow> if sig \<in> set (signals q) then s\<lparr> subscriptions := subscriptions s @ [sig] \<rparr>
                  else s)"

definition on_channel :: "proxy option \<Rightarrow> nat \<Rightarrow> state \<Rightarrow> state" where
  "on_channel p now s =
     (let s1 = updateStatus StOk (s\<lparr> qweb := p \<rparr>);
          s2 = subscribe ''isStreamingChanged''
                 (subscribe ''isRecordingChanged'' (subscribe ''sceneChanged'' s1));
          s3 = (case p of None \<Rightarrow> s2
                | Some q \<Rightarrow> (case p_isRecording q of
                               JBool b \<Rightarrow> onRecordingStateChange b now s2 | _ \<Rightarrow> s2));
          s4 = (case p of None \<Rightarrow> s3
                | Some q \<Rightarrow> (case p_isStreaming q of
                               JBool b \<Rightarrow> onStreamingStateChange b now s3 | _ \<Rightarrow> s3))
      in refreshScenes s4)"

definition init :: "(string \<Rightarrow> jsnum) \<Rightarrow> config_in option \<Rightarrow> string option \<Rightarrow> state \<Rightarrow> state" where
  "init str2num c ctor s =
     (let s1 = updateStatus StConnecting (s\<lparr> config := effective_config str2num c \<rparr>);
          s2 = setVariableValue ''streaming_timecode'' ''00:00:00''
                 (setVariableValue ''recording_timecode'' ''00:00:00'' s1)
      in connect ctor (definePresets (defineActions (defineFeedbacks s2))))"

definition configUpdated ::
  "(string \<Rightarrow> jsnum) \<Rightarrow> config_in option \<Rightarrow> string option \<Rightarrow> state \<Rightarrow> state" where
  "configUpdated str2num c ctor s =
     (let s1 = s\<lparr> config := effective_config str2num c \<rparr>;
          s2 = log_msg LvDebug (LogConfigUpdated (host (config s1)) (port (config s1))) s1
      in connect ctor s2)"

definition destroy :: "state \<Rightarrow> state" where
  "destroy s =
     (let s1 = stopStreamTimer (stopRecordTimer s)
      in case ws s1 of None \<Rightarrow> s1 | Some w \<Rightarrow> s1\<lparr> ws := None \<rparr>)"

section \<open>Events\<close>

text \<open>
  Everything runs as a handler of one event, to completion. A socket emits \<open>close\<close> once;
  a channel completes its handshake once; a one-shot timer fires once, the oldest first
  (all have the same delay); a signal carries the new value of the property it announces
  and reaches only a handler that was connected; the host runs only an action that is
  defined. An event that cannot occur in a state leaves it as it is.
\<close>

datatype event =
    Init "config_in option" "string option"
  | ConfigUpdated "config_in option" "string option"
  | Destroy
  | SocketOpen nat bool
  | ChannelReady nat "proxy option" nat
  | SocketClose nat
  | SocketError nat "string option"
  | ReconnectFire "string option"
  | SigSceneChanged string
  | SigRecordingChanged jsval nat
  | SigStreamingChanged jsval nat
  | ScenesReply "raw_scene list option"
  | Action action nat
  | Tick nat nat

fun step :: "builtins \<Rightarrow> event \<Rightarrow> state \<Rightarrow> state" where
  "step sn (Init c ctor) s = init (bi_str2num sn) c ctor s"
| "step sn (ConfigUpdated c ctor) s = configUpdated (bi_str2num sn) c ctor s"
| "step sn Destroy s = destroy s"
| "step sn (SocketOpen k ok) s = (if k \<in> set (open_sockets s) then on_open k ok s else s)"
| "step sn (ChannelReady k p now) s =
     (if k \<in> set (channels s)
      then on_channel p now (s\<lparr> channels := removeAll k (channels s) \<rparr>) else s)"
| "step sn (SocketClose k) s =
     (if k \<in> set (open_sockets s)
      then on_close (s\<lparr> open_sockets := removeAll k (open_sockets s) \<rparr>) else s)"
| "step sn (SocketError k msg) s = (if k \<in> set (open_sockets s) then on_error msg s else s)"
| "step sn (ReconnectFire ctor) s =
     (case pending s of [] \<Rightarrow> s | d # ds \<Rightarrow> connect ctor (s\<lparr> pending := ds \<rparr>))"
| "step sn (SigSceneChanged i) s =
     (if ''sceneChanged'' \<in> set (subscriptions s) then s\<lparr> currentSceneId := Some i \<rparr> else s)"
| "step sn (SigRecordingChanged v now) s =
     (if ''isRecordingChanged'' \<in> set (subscriptions s)
      then (case qweb s of None \<Rightarrow> s
            | Some q \<Rightarrow> onRecordingStateChange (truthy v) now
                          (s\<lparr> qweb := Some (q\<lparr> p_isRecording := v \<rparr>) \<rparr>))
      else s)"
| "step sn (SigStreamingChanged v now) s =
     (if ''isStreamingChanged'' \<in> set (subscriptions s)
      then (case qweb s of None \<Rightarrow> s
            | Some q \<Rightarrow> onStreamingStateChange (truthy v) now
                          (s\<lparr> qweb := Some (q\<lparr> p_isStreaming := v \<rparr>) \<rparr>))
      else s)"
| "step sn (ScenesReply arr) s =
     (if (''getScenes'', []) \<in> set (remote_calls s) then ingestScenes arr s else s)"
| "step sn (Action a now) s =
     (if action_id a \<in> set (action_defs s) then action_callback a now s else s)"
| "step sn (Tick h now) s =
     (case map_of (intervals s) h of None \<Rightarrow> s
      | Some RecordTick \<Rightarrow> record_tick sn now s
      | Some StreamTick \<Rightarrow> stream_tick sn now s)"

definition run :: "builtins \<Rightarrow> event list \<Rightarrow> state \<Rightarrow> state" where
  "run sn evs s = fold (step sn) evs s"

inductive reachable :: "builtins \<Rightarrow> state \<Rightarrow> bool" for sn where
  reach_init: "reachable sn init_state"
| reach_step: "reachable sn s \<Longrightarrow> reachable sn (step sn e s)"

text \<open>The number of interval timers of one kind that are set.\<close>

definition active_ticks :: "timer_kind \<Rightarrow> state \<Rightarrow> nat" where
  "active_ticks k s = length (filter (\<lambda>e. snd e = k) (intervals s))"

text \<open>Every interval timer that is set is the one its field of the instance refers to.\<close>

definition timers_consistent :: "state \<Rightarrow> bool" where
  "timers_consistent s =
     list_all (\<lambda>e. (snd e = RecordTick \<longrightarrow> recordTimer s = Some (fst e))
                    \<and> (snd e = StreamTick \<longrightarrow> streamTimer s = Some (fst e)))
       (intervals s)"

section \<open>Rounding\<close>

text \<open>
  Rounding to the nearest double: the rounded value is at least as close to the real as
  any double is, in particular as any \<open>m / 2^j\<close> with \<open>m \<le> 2^53\<close> and \<open>j \<le> 52\<close>.
\<close>

definition nearest :: "(real \<Rightarrow> real) \<Rightarrow> bool" where
  "nearest rnd =
     (\<forall>r m j. 0 \<le> r \<and> m \<le> (2::nat) ^ 53 \<and> j \<le> (52::nat)
        \<longrightarrow> \<bar>rnd r - r\<bar> \<le> \<bar>real m / 2 ^ j - r\<bar>)"

section \<open>Reading a time code back\<close>

text \<open>The duration that is formatted: \<open>max(d, 0)\<close>, with zero for a value that is not finite,
  and its whole seconds.\<close>

definition clamp_ms :: "jsnum \<Rightarrow> real" where
  "clamp_ms d = (case d of Fin x \<Rightarrow> max x 0 | _ \<Rightarrow> 0)"

definition total_seconds :: "jsnum \<Rightarrow> nat" where
  "total_seconds d = nat \<lfloor>clamp_ms d / 1000\<rfloor>"

section \<open>Sample inputs\<close>

text \<open>
  A proxy that exposes nothing. Sample built-ins: a string conversion that agrees with
  StringToNumber on the two strings it is used with, \<open>"8080"\<close> and \<open>"abc"\<close>; the identity
  as rounding, which is the rounding of every quotient that is itself a double, as the
  quotients of the sample runs are; and \<open>String\<close> at \<open>2^60\<close>, the one integer from \<open>2^53\<close>
  on that the samples print.
\<close>

definition proxy_bare :: proxy where
  "proxy_bare = \<lparr> methods = [], signals = [], p_isRecording = JUndefined,
                  p_isStreaming = JUndefined, session_items = None \<rparr>"

definition sample_str2num :: "string \<Rightarrow> jsnum" where
  "sample_str2num t = (if t = ''8080'' then Fin 8080 else NaN)"

definition sample_String_big :: "nat \<Rightarrow> string" where
  "sample_String_big n = (if n = 2 ^ 60 then ''1152921504606847000'' else [])"

definition sample_builtins :: builtins where
  "sample_builtins = \<lparr> bi_str2num = sample_str2num, bi_round = id,
                       bi_String_big = sample_String_big \<rparr>"

text \<open>A session: start-up, the socket opens, the handshake delivers a proxy.\<close>

definition session_with :: "proxy \<Rightarrow> nat \<Rightarrow> state" where
  "session_with p now =
     run sample_builtins [Init None None, SocketOpen 0 True, ChannelReady 0 (Some p) now] init_state"

text \<open>A session whose proxy reports a recording in progress at time 1000, followed by the
  tick of the recording timer (handle 1) at time 226000.\<close>

definition recording_session :: state where
  "recording_session =
     step sample_builtins (Tick 1 226000)
       (session_with (proxy_bare\<lparr>p_isRecording := JBool True\<rparr>) 1000)"

section \<open>Properties of the handlers\<close>

lemmas prim_defs = updateStatus_def log_msg_def setVariableValue_def call_remote_def
  clearInterval_def setInterval_def

lemmas timer_defs = stopRecordTimer_def stopStreamTimer_def startRecording_def
  stopRecording_def startStreaming_def stopStreaming_def onRecordingStateChange_def
  onStreamingStateChange_def

lemma on_close_fields:
  "pending (on_close s) = pending s @ [reconnect_delay]"
  "qweb (on_close s) = qweb s"
  "variables (on_close s) = variables s"
  "status (on_close s) = status s @ [StDisconnected]"
  "recordTimer (on_close s) = None"
  "streamTimer (on_close s) = None"
  "remote_calls (on_close s) = remote_calls s"
  "isRecording (on_close s) = isRecording s"
  "isStreaming (on_close s) = isStreaming s"
  "subscriptions (on_close s) = subscriptions s"
  by (simp_all add: on_close_def Let_def prim_defs stopRecordTimer_def stopStreamTimer_def
        split: option.splits)

lemma pending_on_close_iter: "pending ((on_close ^^ n) s) = pending s @ replicate n reconnect_delay"
  by (induction n) (simp_all add: on_close_fields replicate_append_same)



lemma local_part_remote_calls: "remote_calls (local_part a now s) = remote_calls s"
  by (cases a) (simp_all add: Let_def prim_defs timer_defs split: option.splits prod.splits)

lemma local_part_qweb: "qweb (local_part a now s) = qweb s"
  by (cases a) (simp_all add: Let_def prim_defs timer_defs split: option.splits prod.splits)

lemma remote_calls_action_callback:
  "remote_calls (action_callback a now s) = remote_calls (remote_part a s)"
  by (simp add: action_callback_def local_part_remote_calls)


lemma tc_stopRecordTimer: "timers_consistent s \<Longrightarrow> timers_consistent (stopRecordTimer s)"
  by (auto simp: timers_consistent_def stopRecordTimer_def clearInterval_def list_all_iff
      split: option.splits timer_kind.splits)

lemma tc_stopStreamTimer: "timers_consistent s \<Longrightarrow> timers_consistent (stopStreamTimer s)"
  by (auto simp: timers_consistent_def stopStreamTimer_def clearInterval_def list_all_iff
      split: option.splits timer_kind.splits)

lemma no_record_after_stop:
  "timers_consistent s \<Longrightarrow> filter (\<lambda>e. snd e = RecordTick) (intervals (stopRecordTimer s)) = []"
  by (auto simp: timers_consistent_def stopRecordTimer_def clearInterval_def list_all_iff
      filter_empty_conv split: option.splits timer_kind.splits)

lemma no_stream_after_stop:
  "timers_consistent s \<Longrightarrow> filter (\<lambda>e. snd e = StreamTick) (intervals (stopStreamTimer s)) = []"
  by (auto simp: timers_consistent_def stopStreamTimer_def clearInterval_def list_all_iff
      filter_empty_conv split: option.splits timer_kind.splits)

lemma tc_startRecording: "timers_consistent s \<Longrightarrow> timers_consistent (startRecording now s)"
  by (auto simp: timers_consistent_def startRecording_def stopRecordTimer_def clearInterval_def
      setInterval_def Let_def list_all_iff split: option.splits timer_kind.splits)

lemma tc_startStreaming: "timers_consistent s \<Longrightarrow> timers_consistent (startStreaming now s)"
  by (auto simp: timers_consistent_def startStreaming_def stopStreamTimer_def clearInterval_def
      setInterval_def Let_def list_all_iff split: option.splits timer_kind.splits)

lemma tc_stopRecording: "timers_consistent s \<Longrightarrow> timers_consistent (stopRecording s)"
  by (auto simp: timers_consistent_def stopRecording_def stopRecordTimer_def clearInterval_def
      setVariableValue_def list_all_iff split: option.splits timer_kind.splits)

lemma tc_stopStreaming: "timers_consistent s \<Longrightarrow> timers_consistent (stopStreaming s)"
  by (auto simp: timers_consistent_def stopStreaming_def stopStreamTimer_def clearInterval_def
      setVariableValue_def list_all_iff split: option.splits timer_kind.splits)

lemma tc_onRecording: "timers_consistent s \<Longrightarrow> timers_consistent (onRecordingStateChange b now s)"
  by (simp add: onRecordingStateChange_def tc_startRecording tc_stopRecording)

lemma tc_onStreaming: "timers_consistent s \<Longrightarrow> timers_consistent (onStreamingStateChange b now s)"
  by (simp add: onStreamingStateChange_def tc_startStreaming tc_stopStreaming)

lemma tc_updateStatus [simp]: "timers_consistent (updateStatus st s) = timers_consistent s"
  by (simp add: timers_consistent_def updateStatus_def)

lemma tc_log_msg [simp]: "timers_consistent (log_msg lv m s) = timers_consistent s"
  by (simp add: timers_consistent_def log_msg_def)

lemma tc_setVariableValue [simp]: "timers_consistent (setVariableValue k v s) = timers_consistent s"
  by (simp add: timers_consistent_def setVariableValue_def)

lemma tc_call_remote [simp]: "timers_consistent (call_remote m a s) = timers_consistent s"
  by (simp add: timers_consistent_def call_remote_def)

lemma tc_subscribe [simp]: "timers_consistent (subscribe g s) = timers_consistent s"
  by (simp add: timers_consistent_def subscribe_def split: option.splits)

lemma tc_ingestScenes [simp]: "timers_consistent (ingestScenes arr s) = timers_consistent s"
  by (simp add: timers_consistent_def ingestScenes_def Let_def definePresets_def defineActions_def
      refreshFeedbackChoices_def)

lemma tc_refreshScenes [simp]: "timers_consistent (refreshScenes s) = timers_consistent s"
  by (simp add: refreshScenes_def split: option.splits)

lemma tc_connect [simp]: "timers_consistent (connect ctor s) = timers_consistent s"
  by (simp add: timers_consistent_def connect_def Let_def updateStatus_def log_msg_def
      split: option.splits)

lemma tc_remote_part [simp]: "timers_consistent (remote_part a s) = timers_consistent s"
  by (cases a) (simp_all split: option.splits)

lemma tc_local_part: "timers_consistent s \<Longrightarrow> timers_consistent (local_part a now s)"
  by (cases a) (simp_all add: tc_startRecording tc_stopRecording tc_startStreaming tc_stopStreaming)

lemma tc_on_close: "timers_consistent s \<Longrightarrow> timers_consistent (on_close s)"
proof -
  assume a: "timers_consistent s"
  have "timers_consistent (stopStreamTimer (stopRecordTimer (updateStatus StDisconnected s)))"
    using a by (simp add: tc_stopRecordTimer tc_stopStreamTimer)
  then show ?thesis
    by (simp add: on_close_def Let_def timers_consistent_def)
qed

lemma tc_destroy: "timers_consistent s \<Longrightarrow> timers_consistent (destroy s)"
proof -
  assume a: "timers_consistent s"
  have "timers_consistent (stopStreamTimer (stopRecordTimer s))"
    using a by (simp add: tc_stopRecordTimer tc_stopStreamTimer)
  then show ?thesis
    by (simp add: destroy_def Let_def timers_consistent_def split: option.splits)
qed

lemma tc_on_channel: "timers_consistent s \<Longrightarrow> timers_consistent (on_channel p now s)"
proof -
  assume a: "timers_consistent s"
  have b: "timers_consistent (s\<lparr>qweb := p\<rparr>)"
    using a by (simp add: timers_consistent_def)
  show ?thesis
    unfolding on_channel_def Let_def
    using b by (auto simp: tc_onRecording tc_onStreaming split: option.splits jsval.splits)
qed

lemma tc_init: "timers_consistent s \<Longrightarrow> timers_consistent (init sn c ctor s)"
  by (simp add: init_def Let_def timers_consistent_def definePresets_def defineActions_def
      defineFeedbacks_def setVariableValue_def updateStatus_def connect_def log_msg_def
      split: option.splits)

lemma tc_configUpdated: "timers_consistent s \<Longrightarrow> timers_consistent (configUpdated sn c ctor s)"
  by (simp add: configUpdated_def Let_def timers_consistent_def connect_def log_msg_def
      updateStatus_def split: option.splits)

lemma tc_step: "timers_consistent s \<Longrightarrow> timers_consistent (step sn e s)"
proof (cases e)
  case (SocketClose k)
  assume a: "timers_consistent s"
  have "timers_consistent (s\<lparr>open_sockets := removeAll k (open_sockets s)\<rparr>)"
    using a by (simp add: timers_consistent_def)
  then show ?thesis using a SocketClose by (simp add: tc_on_close)
next
  case (ChannelReady k p now)
  assume a: "timers_consistent s"
  have "timers_consistent (s\<lparr>channels := removeAll k (channels s)\<rparr>)"
    using a by (simp add: timers_consistent_def)
  then show ?thesis using a ChannelReady by (simp add: tc_on_channel)
next
  case (SigRecordingChanged v now)
  assume a: "timers_consistent s"
  have "\<And>q. timers_consistent (s\<lparr>qweb := q\<rparr>)"
    using a by (simp add: timers_consistent_def)
  then show ?thesis using a SigRecordingChanged
    by (simp add: tc_onRecording split: option.splits)
next
  case (SigStreamingChanged v now)
  assume a: "timers_consistent s"
  have "\<And>q. timers_consistent (s\<lparr>qweb := q\<rparr>)"
    using a by (simp add: timers_consistent_def)
  then show ?thesis using a SigStreamingChanged
    by (simp add: tc_onStreaming split: option.splits)
next
  case (ReconnectFire ctor)
  assume a: "timers_consistent s"
  have "\<And>ds. timers_consistent (s\<lparr>pending := ds\<rparr>)"
    using a by (simp add: timers_consistent_def)
  then show ?thesis using a ReconnectFire by (simp split: list.splits)
next
  case (SigSceneChanged i)
  assume a: "timers_consistent s"
  then show ?thesis using SigSceneChanged by (simp add: timers_consistent_def)
next
  case (SocketOpen k ok)
  assume a: "timers_consistent s"
  then show ?thesis using SocketOpen
    by (simp add: on_open_def timers_consistent_def updateStatus_def log_msg_def)
next
  case (Tick h now)
  assume a: "timers_consistent s"
  then show ?thesis using Tick
    by (simp add: record_tick_def stream_tick_def split: option.splits timer_kind.splits)
qed (simp_all add: tc_init tc_configUpdated tc_destroy on_error_def action_callback_def tc_local_part)

lemma tc_init_state: "timers_consistent init_state"
  by (simp add: timers_consistent_def init_state_def)

lemma reachable_timers_consistent: "reachable sn s \<Longrightarrow> timers_consistent s"
  by (induction rule: reachable.induct) (simp_all add: tc_init_state tc_step)

lemma startRecording_ticks:
  "timers_consistent s \<Longrightarrow> active_ticks RecordTick (startRecording now s) = 1"
proof -
  assume a: "timers_consistent s"
  have "timers_consistent (s\<lparr>isRecording := True, recordStart := Some now\<rparr>)"
    using a by (simp add: timers_consistent_def)
  from no_record_after_stop [OF this] show ?thesis
    by (simp add: active_ticks_def startRecording_def setInterval_def Let_def)
qed

lemma startStreaming_ticks:
  "timers_consistent s \<Longrightarrow> active_ticks StreamTick (startStreaming now s) = 1"
proof -
  assume a: "timers_consistent s"
  have "timers_consistent (s\<lparr>isStreaming := True, streamStart := Some now\<rparr>)"
    using a by (simp add: timers_consistent_def)
  from no_stream_after_stop [OF this] show ?thesis
    by (simp add: active_ticks_def startStreaming_def setInterval_def Let_def)
qed

lemma startRecording_fields:
  "recordStart (startRecording now s) = Some now" "isRecording (startRecording now s)"
  by (simp_all add: startRecording_def stopRecordTimer_def clearInterval_def setInterval_def Let_def
      split: option.splits)

lemma startStreaming_fields:
  "streamStart (startStreaming now s) = Some now" "isStreaming (startStreaming now s)"
  by (simp_all add: startStreaming_def stopStreamTimer_def clearInterval_def setInterval_def Let_def
      split: option.splits)

lemma mem_intervals_on_close:
  "e \<in> set (intervals (on_close s)) \<Longrightarrow>
   e \<in> set (intervals s) \<and> recordTimer s \<noteq> Some (fst e) \<and> streamTimer s \<noteq> Some (fst e)"
  by (auto simp: on_close_def Let_def updateStatus_def stopRecordTimer_def stopStreamTimer_def
      clearInterval_def split: option.splits)

lemma intervals_on_close: "timers_consistent s \<Longrightarrow> intervals (on_close s) = []"
proof -
  assume a: "timers_consistent s"
  have b: "recordTimer s = Some (fst e) \<or> streamTimer s = Some (fst e)"
    if "e \<in> set (intervals s)" for e
    using a that by (cases "snd e") (auto simp: timers_consistent_def list_all_iff)
  have c: "e \<notin> set (intervals (on_close s))" for e
    using b [of e] mem_intervals_on_close [of e s] by blast
  show ?thesis
  proof (cases "intervals (on_close s)")
    case Nil
    then show ?thesis by simp
  next
    case (Cons x xs)
    then have "x \<in> set (intervals (on_close s))" by simp
    with c show ?thesis by blast
  qed
qed

lemma stopRecording_variable:
  "variables (stopRecording s) ''recording_timecode'' = Some ''00:00:00''"
  by (simp add: stopRecording_def setVariableValue_def)

lemma stopStreaming_variable:
  "variables (stopStreaming s) ''streaming_timecode'' = Some ''00:00:00''"
  by (simp add: stopStreaming_def setVariableValue_def)

lemma config_connect: "config (connect ctor s) = config s"
  by (simp add: connect_def Let_def updateStatus_def log_msg_def split: option.splits)

lemma remote_part_flags:
  "isRecording (remote_part a s) = isRecording s" "isStreaming (remote_part a s) = isStreaming s"
  by (cases a; simp add: call_remote_def split: option.splits)+





section \<open>Properties of the scene registry\<close>

lemma map_fst_obj_set:
  "map fst (obj_set k v kvs) = (if k \<in> set (map fst kvs) then map fst kvs else map fst kvs @ [k])"
  by (induction kvs) (auto simp: rev_image_eqI)

lemma keys_obj_set: "fst ` set (obj_set k v kvs) = insert k (fst ` set kvs)"
proof -
  have "set (map fst (obj_set k v kvs)) = insert k (set (map fst kvs))"
    by (simp only: map_fst_obj_set) (auto simp: insert_absorb)
  then show ?thesis by simp
qed

lemma distinct_obj_set: "distinct (map fst kvs) \<Longrightarrow> distinct (map fst (obj_set k v kvs))"
  by (simp add: map_fst_obj_set)

lemma map_of_obj_set: "map_of (obj_set k v kvs) = (map_of kvs)(k \<mapsto> v)"
  by (induction kvs) auto

lemma find_snoc:
  "find P (xs @ [x]) = (case find P xs of Some y \<Rightarrow> Some y | None \<Rightarrow> if P x then Some x else None)"
  by (induction xs) auto

lemma find_Some_holds: "find P xs = Some x \<Longrightarrow> P x"
  by (induction xs) (auto split: if_splits)

lemma keys_fold:
  "fst ` set (fst (fold (\<lambda>sc acc. obj_assign (rs_id sc) (g sc) acc) arr acc0))
     = fst ` set (fst acc0) \<union> (rs_id ` set arr - {''__proto__''})"
proof (induction arr arbitrary: acc0)
  case Nil
  then show ?case by simp
next
  case (Cons a arr)
  have "fst ` set (fst (fold (\<lambda>sc acc. obj_assign (rs_id sc) (g sc) acc) arr
            (obj_assign (rs_id a) (g a) acc0)))
          = fst ` set (fst (obj_assign (rs_id a) (g a) acc0)) \<union> (rs_id ` set arr - {''__proto__''})"
    by (rule Cons.IH)
  then show ?case
    by (auto simp: obj_assign_def keys_obj_set)
qed

lemma distinct_fold:
  "distinct (map fst (fst acc0)) \<Longrightarrow>
   distinct (map fst (fst (fold (\<lambda>sc acc. obj_assign (rs_id sc) (g sc) acc) arr acc0)))"
  by (induction arr arbitrary: acc0) (auto simp: obj_assign_def distinct_obj_set)

lemma map_of_fold:
  "i \<noteq> ''__proto__'' \<Longrightarrow>
   map_of (fst (fold (\<lambda>sc acc. obj_assign (rs_id sc) (g sc) acc) arr acc0)) i
     = (case find (\<lambda>sc. rs_id sc = i) (rev arr) of
          None \<Rightarrow> map_of (fst acc0) i | Some sc \<Rightarrow> Some (g sc))"
  by (induction arr arbitrary: acc0)
     (auto simp: obj_assign_def map_of_obj_set find_snoc split: option.splits)

lemma proto_fold:
  "snd (fold (\<lambda>sc acc. obj_assign (rs_id sc) (g sc) acc) arr acc0)
     = (case find (\<lambda>sc. rs_id sc = ''__proto__'') (rev arr) of
          None \<Rightarrow> snd acc0 | Some sc \<Rightarrow> Some (g sc))"
  by (induction arr arbitrary: acc0)
     (auto simp: obj_assign_def find_snoc split: option.splits)

lemma keys_ingest_loop:
  "fst ` set (fst (ingest_loop arr)) = rs_id ` set arr - {''__proto__''}"
  by (simp add: ingest_loop_def keys_fold)

lemma distinct_ingest_loop: "distinct (map fst (fst (ingest_loop arr)))"
  by (simp add: ingest_loop_def distinct_fold)

lemma map_of_ingest_loop:
  "i \<noteq> ''__proto__'' \<Longrightarrow>
   map_of (fst (ingest_loop arr)) i
     = (case find (\<lambda>sc. rs_id sc = i) (rev arr) of
          None \<Rightarrow> None | Some sc \<Rightarrow> Some \<lparr> sc_id = rs_id sc, sc_name = cleanName sc \<rparr>)"
  by (simp add: ingest_loop_def map_of_fold split: option.splits)

lemma proto_ingest_loop:
  "snd (ingest_loop arr)
     = (case find (\<lambda>sc. rs_id sc = ''__proto__'') (rev arr) of
          None \<Rightarrow> None | Some sc \<Rightarrow> Some \<lparr> sc_id = rs_id sc, sc_name = cleanName sc \<rparr>)"
  by (simp add: ingest_loop_def proto_fold split: option.splits)

lemma scenes_ingestScenes:
  "scenes (ingestScenes a s) = fst (ingest_loop (case a of None \<Rightarrow> [] | Some arr \<Rightarrow> arr))"
  "scenes_proto (ingestScenes a s) = snd (ingest_loop (case a of None \<Rightarrow> [] | Some arr \<Rightarrow> arr))"
  by (simp_all add: ingestScenes_def Let_def definePresets_def refreshFeedbackChoices_def
      defineActions_def)

lemmas ws_defs = ws1_def ws2_def ws3_def

lemma ws_len_Nil [simp]: "ws_len [] = 0"
  by (simp add: ws_len_def ws_defs)

lemma ws1_facts: "x \<in> set ws1 \<Longrightarrow> length x = 1"
  by (auto simp: ws1_def)

lemma ws2_facts: "x \<in> set ws2 \<Longrightarrow> length x = 2 \<and> take 1 x \<notin> set ws1"
  by (auto simp: ws1_def ws2_def)

lemma ws3_length: "x \<in> set ws3 \<Longrightarrow> length x = 3"
  by (auto simp: ws3_def)

lemma ws3_not_ws1: "x \<in> set ws3 \<Longrightarrow> take 1 x \<notin> set ws1"
  by (auto simp: ws1_def ws3_def)

lemma ws3_not_ws2: "x \<in> set ws3 \<Longrightarrow> take 2 x \<notin> set ws2"
  by (auto simp: ws2_def ws3_def)

lemma ws_len_enc:
  "x \<in> set ws1 \<union> set ws2 \<union> set ws3 \<Longrightarrow> ws_len (x @ r) = length x"
proof -
  assume "x \<in> set ws1 \<union> set ws2 \<union> set ws3"
  then consider "x \<in> set ws1" | "x \<in> set ws2" | "x \<in> set ws3"
    by blast
  then show ?thesis
  proof cases
    case 1
    then have "length x = 1" by (rule ws1_facts)
    with 1 show ?thesis by (simp add: ws_len_def)
  next
    case 2
    from ws2_facts [OF 2] have "length x = 2" "take 1 x \<notin> set ws1" by blast+
    with 2 show ?thesis by (simp add: ws_len_def)
  next
    case 3
    from ws3_length [OF 3] ws3_not_ws1 [OF 3] ws3_not_ws2 [OF 3]
    have "length x = 3" "take 1 x \<notin> set ws1" "take 2 x \<notin> set ws2"
      by blast+
    with 3 show ?thesis by (simp add: ws_len_def)
  qed
qed

lemma ws_enc_nonempty: "x \<in> set ws1 \<union> set ws2 \<union> set ws3 \<Longrightarrow> x \<noteq> []"
  using ws1_facts ws2_facts ws3_length by fastforce

lemma ws_len_take:
  "ws_len s \<noteq> 0 \<Longrightarrow> take (ws_len s) s \<in> set ws1 \<union> set ws2 \<union> set ws3"
  by (simp add: ws_len_def split: if_splits)

lemma skip_space_stop: "ws_len s = 0 \<Longrightarrow> skip_space s = s"
  by (subst skip_space.simps) simp

lemma skip_space_step: "ws_len s \<noteq> 0 \<Longrightarrow> skip_space s = skip_space (drop (ws_len s) s)"
  by (subst skip_space.simps) simp

lemma skip_space_enc:
  "x \<in> set ws1 \<union> set ws2 \<union> set ws3 \<Longrightarrow> skip_space (x @ r) = skip_space r"
proof -
  assume a: "x \<in> set ws1 \<union> set ws2 \<union> set ws3"
  then have l: "ws_len (x @ r) = length x"
    by (rule ws_len_enc)
  moreover have "length x \<noteq> 0"
    using ws_enc_nonempty [OF a] by simp
  ultimately have "skip_space (x @ r) = skip_space (drop (length x) (x @ r))"
    using skip_space_step [of "x @ r"] by simp
  then show ?thesis
    by simp
qed

lemma all_space_Nil [simp]: "all_space []"
  by (simp add: all_space_def skip_space_stop)

lemma all_space_enc:
  "x \<in> set ws1 \<union> set ws2 \<union> set ws3 \<Longrightarrow> all_space (x @ w) = all_space w"
  by (simp add: all_space_def skip_space_enc)

lemma all_space_cases:
  "all_space w \<Longrightarrow>
   w = [] \<or> (\<exists>x w'. w = x @ w' \<and> x \<in> set ws1 \<union> set ws2 \<union> set ws3 \<and> all_space w'
                \<and> length w' < length w)"
proof (cases "ws_len w = 0")
  case True
  assume "all_space w"
  with True show ?thesis
    by (simp add: all_space_def skip_space_stop)
next
  case False
  assume a: "all_space w"
  let ?x = "take (ws_len w) w" and ?w' = "drop (ws_len w) w"
  have x: "?x \<in> set ws1 \<union> set ws2 \<union> set ws3"
    using False by (rule ws_len_take)
  have "w = ?x @ ?w'"
    by simp
  moreover have "all_space ?w'"
    using a False by (simp add: all_space_def skip_space_step)
  moreover have "length ?w' < length w"
  proof -
    have "w \<noteq> []" using False by auto
    with False show ?thesis by simp
  qed
  ultimately show ?thesis
    using x by blast
qed

lemma skip_space_prefix:
  "all_space w \<Longrightarrow> ws_len r = 0 \<Longrightarrow> skip_space (w @ r) = r"
proof (induction w rule: length_induct)
  case (1 w)
  from all_space_cases [OF 1(2)] show ?case
  proof
    assume "w = []"
    with 1(3) show ?thesis by (simp add: skip_space_stop)
  next
    assume "\<exists>x w'. w = x @ w' \<and> x \<in> set ws1 \<union> set ws2 \<union> set ws3 \<and> all_space w'
                \<and> length w' < length w"
    then obtain x w' where h: "w = x @ w'" "x \<in> set ws1 \<union> set ws2 \<union> set ws3"
      "all_space w'" "length w' < length w"
      by blast
    from 1(1) h(3,4) 1(3) have "skip_space (w' @ r) = r"
      by blast
    with h(1,2) show ?thesis
      using skip_space_enc [of x "w' @ r"] by simp
  qed
qed

lemma skip_space_split: "\<exists>w. s = w @ skip_space s \<and> all_space w"
proof (induction s rule: length_induct)
  case (1 s)
  show ?case
  proof (cases "ws_len s = 0")
    case True
    then have "s = [] @ skip_space s \<and> all_space []"
      by (simp add: skip_space_stop)
    then show ?thesis by blast
  next
    case False
    let ?x = "take (ws_len s) s" and ?s' = "drop (ws_len s) s"
    have x: "?x \<in> set ws1 \<union> set ws2 \<union> set ws3"
      using False by (rule ws_len_take)
    have "s \<noteq> []" using False by auto
    with False have "length ?s' < length s" by simp
    with 1 obtain w' where w': "?s' = w' @ skip_space ?s'" "all_space w'"
      by blast
    have sk: "skip_space s = skip_space ?s'"
      using False by (rule skip_space_step)
    have "s = ?x @ ?s'" by simp
    with w'(1) sk have "s = (?x @ w') @ skip_space s"
      by (metis append.assoc)
    moreover have "all_space (?x @ w')"
      using x w'(2) by (simp add: all_space_enc)
    ultimately show ?thesis by blast
  qed
qed

lemma all_space_iff:
  "all_space w \<longleftrightarrow> (\<exists>xs. w = concat xs \<and> set xs \<subseteq> set ws1 \<union> set ws2 \<union> set ws3)"
proof
  show "all_space w \<Longrightarrow> \<exists>xs. w = concat xs \<and> set xs \<subseteq> set ws1 \<union> set ws2 \<union> set ws3"
  proof (induction w rule: length_induct)
    case (1 w)
    from all_space_cases [OF 1(2)] show ?case
    proof
      assume "w = []"
      then have "w = concat [] \<and> set [] \<subseteq> set ws1 \<union> set ws2 \<union> set ws3" by simp
      then show ?thesis by blast
    next
      assume "\<exists>x w'. w = x @ w' \<and> x \<in> set ws1 \<union> set ws2 \<union> set ws3 \<and> all_space w'
                \<and> length w' < length w"
      then obtain x w' where h: "w = x @ w'" "x \<in> set ws1 \<union> set ws2 \<union> set ws3"
        "all_space w'" "length w' < length w"
        by blast
      from 1(1) h(3,4) obtain xs where xs: "w' = concat xs" "set xs \<subseteq> set ws1 \<union> set ws2 \<union> set ws3"
        by blast
      with h(1,2) have "w = concat (x # xs) \<and> set (x # xs) \<subseteq> set ws1 \<union> set ws2 \<union> set ws3"
        by simp
      then show ?thesis by blast
    qed
  qed
next
  assume "\<exists>xs. w = concat xs \<and> set xs \<subseteq> set ws1 \<union> set ws2 \<union> set ws3"
  then obtain xs where xs: "w = concat xs" "set xs \<subseteq> set ws1 \<union> set ws2 \<union> set ws3"
    by blast
  from xs(2) have "all_space (concat xs)"
  proof (induction xs)
    case Nil
    then show ?case by simp
  next
    case (Cons x xs)
    then have "x \<in> set ws1 \<union> set ws2 \<union> set ws3" "all_space (concat xs)"
      by simp_all
    then show ?case by (simp add: all_space_enc)
  qed
  with xs(1) show "all_space w" by simp
qed

lemma starts_lt_boundary:
  "starts_line_terminator (u @ CHR '')'' # e) = starts_line_terminator u"
proof (cases u)
  case Nil
  then show ?thesis by (simp add: starts_line_terminator_def)
next
  case u1: (Cons a u1)
  show ?thesis
  proof (cases u1)
    case Nil
    with u1 show ?thesis by (simp add: starts_line_terminator_def)
  next
    case u2: (Cons b u2)
    show ?thesis
    proof (cases u2)
      case Nil
      with u1 u2 show ?thesis by (simp add: starts_line_terminator_def)
    next
      case (Cons c u3)
      with u1 u2 show ?thesis by (simp add: starts_line_terminator_def)
    qed
  qed
qed

lemma paren_rest_iff:
  "paren_rest t \<longleftrightarrow>
     (\<exists>b e. t = b @ CHR '')'' # e \<and> no_line_terminator b \<and> all_space e)"
proof (induction t)
  case Nil
  then show ?case by simp
next
  case (Cons c cs)
  let ?R = "\<lambda>t. \<exists>b e. t = b @ CHR '')'' # e \<and> no_line_terminator b \<and> all_space e"
  show ?case
  proof (cases "c = CHR '')'' \<and> all_space cs")
    case True
    then have "c # cs = [] @ CHR '')'' # cs \<and> no_line_terminator [] \<and> all_space cs"
      by simp
    then have "?R (c # cs)"
      by blast
    moreover have "paren_rest (c # cs)" using True by simp
    ultimately show ?thesis by blast
  next
    case False
    have first: "cs = xs @ CHR '')'' # e \<and> no_line_terminator (c # xs) \<and> all_space e"
      if "c # cs = b @ CHR '')'' # e" "no_line_terminator b" "all_space e" "b = x # xs"
      for b e x xs
      using that by simp
    have empty: "False" if "c # cs = b @ CHR '')'' # e" "all_space e" "b = []" for b e
      using that False by simp
    show ?thesis
    proof (cases "starts_line_terminator (c # cs)")
      case True
      have "\<not> ?R (c # cs)"
      proof
        assume "?R (c # cs)"
        then obtain b e where h: "c # cs = b @ CHR '')'' # e" "no_line_terminator b" "all_space e"
          by blast
        show False
        proof (cases b)
          case Nil
          with h empty show False by blast
        next
          case (Cons x xs)
          with h have "c = x" "cs = xs @ CHR '')'' # e" by simp_all
          with True have "starts_line_terminator ((c # xs) @ CHR '')'' # e)" by simp
          then have "starts_line_terminator (c # xs)"
            using starts_lt_boundary [of "c # xs" e] by simp
          moreover have "\<not> starts_line_terminator (c # xs)"
            using h(2) Cons \<open>c = x\<close> by simp
          ultimately show False by blast
        qed
      qed
      moreover have "\<not> paren_rest (c # cs)" using True False by auto
      ultimately show ?thesis by blast
    next
      case nlt: False
      have "?R (c # cs) \<longleftrightarrow> ?R cs"
      proof
        assume "?R (c # cs)"
        then obtain b e where h: "c # cs = b @ CHR '')'' # e" "no_line_terminator b" "all_space e"
          by blast
        show "?R cs"
        proof (cases b)
          case Nil
          with h empty show ?thesis by blast
        next
          case (Cons x xs)
          with h have "cs = xs @ CHR '')'' # e \<and> no_line_terminator xs \<and> all_space e"
            by simp
          then show ?thesis by blast
        qed
      next
        assume "?R cs"
        then obtain b e where h: "cs = b @ CHR '')'' # e" "no_line_terminator b" "all_space e"
          by blast
        from nlt h(1) have "\<not> starts_line_terminator ((c # b) @ CHR '')'' # e)" by simp
        then have "\<not> starts_line_terminator (c # b)"
          using starts_lt_boundary [of "c # b" e] by simp
        with h have "c # cs = (c # b) @ CHR '')'' # e \<and> no_line_terminator (c # b) \<and> all_space e"
          by simp
        then show "?R (c # cs)"
          by blast
      qed
      moreover have "paren_rest (c # cs) = paren_rest cs" using nlt False by auto
      ultimately show ?thesis using Cons.IH by blast
    qed
  qed
qed

lemma ws_len_paren [simp]: "ws_len (CHR ''('' # r) = 0"
  by (simp add: ws_len_def ws_defs)

lemma match_at_iff:
  "match_at t \<longleftrightarrow>
     (\<exists>w b e. t = w @ CHR ''('' # b @ CHR '')'' # e \<and> all_space w
        \<and> no_line_terminator b \<and> all_space e)"
proof
  assume m: "match_at t"
  then obtain cs where d: "skip_space t = CHR ''('' # cs" and p: "paren_rest cs"
    by (auto simp: match_at_def split: list.splits)
  from p obtain b e where be: "cs = b @ CHR '')'' # e" "no_line_terminator b" "all_space e"
    by (auto simp: paren_rest_iff)
  from skip_space_split [of t] obtain w where w: "t = w @ skip_space t" "all_space w"
    by blast
  with d be have "t = w @ CHR ''('' # b @ CHR '')'' # e" by simp
  with w(2) be show "\<exists>w b e. t = w @ CHR ''('' # b @ CHR '')'' # e \<and> all_space w
        \<and> no_line_terminator b \<and> all_space e"
    by blast
next
  assume "\<exists>w b e. t = w @ CHR ''('' # b @ CHR '')'' # e \<and> all_space w
        \<and> no_line_terminator b \<and> all_space e"
  then obtain w b e where h: "t = w @ CHR ''('' # b @ CHR '')'' # e" "all_space w"
    "no_line_terminator b" "all_space e" by blast
  have "skip_space (w @ CHR ''('' # b @ CHR '')'' # e) = CHR ''('' # b @ CHR '')'' # e"
    using h(2) by (rule skip_space_prefix) simp
  with h(1) have "skip_space t = CHR ''('' # b @ CHR '')'' # e" by simp
  moreover have "paren_rest (b @ CHR '')'' # e)"
    using h(3,4) by (auto simp: paren_rest_iff)
  ultimately show "match_at t" by (simp add: match_at_def)
qed

lemma match_at_Nil [simp]: "\<not> match_at []"
  by (simp add: match_at_def skip_space_stop)

lemma strip_paren_none:
  "(\<forall>i<length t. \<not> match_at (drop i t)) \<Longrightarrow> strip_paren t = t"
proof (induction t)
  case Nil
  then show ?case by simp
next
  case (Cons c cs)
  from Cons.prems have "\<not> match_at (drop 0 (c # cs))" by blast
  then have n: "\<not> match_at (c # cs)" by simp
  have "\<forall>i<length cs. \<not> match_at (drop i cs)"
  proof (intro allI impI)
    fix i assume "i < length cs"
    then have "Suc i < length (c # cs)" by simp
    with Cons.prems have "\<not> match_at (drop (Suc i) (c # cs))" by blast
    then show "\<not> match_at (drop i cs)" by simp
  qed
  with Cons.IH n show ?case by simp
qed

lemma strip_paren_cut:
  "i < length t \<Longrightarrow> match_at (drop i t) \<Longrightarrow> (\<forall>j<i. \<not> match_at (drop j t)) \<Longrightarrow>
   strip_paren t = take i t"
proof (induction t arbitrary: i)
  case Nil
  then show ?case by simp
next
  case (Cons c cs)
  show ?case
  proof (cases i)
    case 0
    with Cons.prems show ?thesis by simp
  next
    case (Suc k)
    with Cons.prems have "\<not> match_at (drop 0 (c # cs))" by blast
    then have n: "\<not> match_at (c # cs)" by simp
    have a: "k < length cs" using Cons.prems Suc by simp
    have b: "match_at (drop k cs)" using Cons.prems Suc by simp
    have c: "\<forall>j<k. \<not> match_at (drop j cs)"
    proof (intro allI impI)
      fix j assume "j < k"
      then have "Suc j < i" using Suc by simp
      with Cons.prems have "\<not> match_at (drop (Suc j) (c # cs))" by blast
      then show "\<not> match_at (drop j cs)" by simp
    qed
    from Cons.IH [OF a b c] n Suc show ?thesis by simp
  qed
qed

text \<open>Evaluation of the expression on a given text.\<close>

lemmas re_eval = match_at_def skip_space_stop skip_space_step all_space_def ws_len_def ws_defs
  starts_line_terminator_def

lemma strip_paren_samples:
  "strip_paren ''Main (Program)'' = ''Main''"
  "strip_paren ''Lower Thirds'' = ''Lower Thirds''"
  "strip_paren ''s1'' = ''s1''"
  "strip_paren ''Cam (A) (Live)'' = ''Cam''"
  "strip_paren ''Cam'' = ''Cam''"
  "strip_paren ''Cam2'' = ''Cam2''"
  "strip_paren (''Main'' @ [CHR 0xC2, CHR 0xA0] @ ''(Program)'') = ''Main''"
  by (simp_all add: re_eval)

section \<open>Properties of the time code\<close>

lemma dec_small: "n < 10 \<Longrightarrow> dec n = [digit_char n]"
  by (subst dec.simps) simp

lemma dec_large: "\<not> n < 10 \<Longrightarrow> dec n = dec (n div 10) @ [digit_char (n mod 10)]"
  by (subst dec.simps) simp

lemma lt10_cases:
  "(d::nat) < 10 \<Longrightarrow> d = 0 \<or> d = 1 \<or> d = 2 \<or> d = 3 \<or> d = 4 \<or> d = 5 \<or> d = 6 \<or> d = 7 \<or> d = 8 \<or> d = 9"
  by arith

lemma digit_char_digit: "d < 10 \<Longrightarrow> is_digit (digit_char d)"
  by (drule lt10_cases) (auto simp: is_digit_def digit_char_def)

lemma digit_val_digit_char: "d < 10 \<Longrightarrow> digit_val (digit_char d) = d"
  by (drule lt10_cases) (auto simp: digit_val_def digit_char_def)

lemma digit_char_zero: "d < 10 \<Longrightarrow> digit_char d = CHR ''0'' \<longleftrightarrow> d = 0"
  by (drule lt10_cases) (auto simp: digit_char_def)

lemma dec_digits: "list_all is_digit (dec n)"
proof (induction n rule: dec.induct)
  case (1 n)
  show ?case
  proof (cases "n < 10")
    case True
    then show ?thesis by (simp add: dec_small digit_char_digit)
  next
    case False
    with 1 show ?thesis by (simp add: dec_large digit_char_digit)
  qed
qed

lemma dec_val_snoc: "dec_val (ds @ [c]) = 10 * dec_val ds + digit_val c"
  by (simp add: dec_val_def)

lemma dec_val_dec: "dec_val (dec n) = n"
proof (induction n rule: dec.induct)
  case (1 n)
  show ?case
  proof (cases "n < 10")
    case True
    then show ?thesis by (simp add: dec_small dec_val_def digit_val_digit_char)
  next
    case False
    with 1 have "dec_val (dec (n div 10)) = n div 10" by simp
    with False show ?thesis
      by (simp add: dec_large dec_val_snoc digit_val_digit_char)
  qed
qed

lemma dec_nonempty: "dec n \<noteq> []"
  by (cases "n < 10") (simp_all add: dec_small dec_large)

lemma length_dec_ge2: "10 \<le> n \<Longrightarrow> 2 \<le> length (dec n)"
proof -
  assume "10 \<le> n"
  then have "dec n = dec (n div 10) @ [digit_char (n mod 10)]" by (simp add: dec_large)
  moreover have "1 \<le> length (dec (n div 10))"
    using dec_nonempty [of "n div 10"] by (cases "dec (n div 10)") simp_all
  ultimately show ?thesis by simp
qed

lemma length_dec_two: "10 \<le> n \<Longrightarrow> n < 100 \<Longrightarrow> length (dec n) = 2"
proof -
  assume a: "10 \<le> n" "n < 100"
  then have "n div 10 < 10" by simp
  with a show ?thesis by (simp add: dec_large dec_small)
qed

lemma hd_dec: "10 \<le> n \<Longrightarrow> hd (dec n) \<noteq> CHR ''0''"
proof (induction n rule: dec.induct)
  case (1 n)
  then have ge: "\<not> n < 10" by simp
  show ?case
  proof (cases "n div 10 < 10")
    case True
    have "0 < n div 10" using 1(2) by simp
    with True have "digit_char (n div 10) \<noteq> CHR ''0''" by (simp add: digit_char_zero)
    with True ge show ?thesis by (simp add: dec_large dec_small)
  next
    case False
    then have "hd (dec (n div 10)) \<noteq> CHR ''0''" using 1(1) ge by simp
    with ge show ?thesis by (simp add: dec_large [of n] dec_nonempty)
  qed
qed

lemma dec_val_zero_cons: "dec_val (CHR ''0'' # ds) = dec_val ds"
  by (simp add: dec_val_def digit_val_def)

lemma pad_plain: "n < 2 ^ 53 \<Longrightarrow> pad bi n = (if n < 10 then CHR ''0'' # dec n else dec n)"
proof -
  assume a: "n < 2 ^ 53"
  show ?thesis
  proof (cases "n < 10")
    case True
    with a show ?thesis by (simp add: pad_def padStart_def String_num_def dec_small)
  next
    case False
    then have "2 \<le> length (dec n)" by (simp add: length_dec_ge2)
    with a False show ?thesis by (simp add: pad_def padStart_def String_num_def)
  qed
qed

lemma pad_digits: "n < 2 ^ 53 \<Longrightarrow> list_all is_digit (pad bi n)"
  by (simp add: pad_plain dec_digits is_digit_def)

lemma pad_val: "n < 2 ^ 53 \<Longrightarrow> dec_val (pad bi n) = n"
  by (simp add: pad_plain dec_val_zero_cons dec_val_dec)

lemma pad_length_ge: "n < 2 ^ 53 \<Longrightarrow> 2 \<le> length (pad bi n)"
  by (simp add: pad_plain dec_small length_dec_ge2)

lemma pad_length_two: "n < 100 \<Longrightarrow> length (pad bi n) = 2"
proof -
  assume a: "n < 100"
  then have "n < 2 ^ 53" by simp
  with a show ?thesis by (simp add: pad_plain dec_small length_dec_two)
qed

lemma pad_no_extra_zero: "n < 2 ^ 53 \<Longrightarrow> 2 < length (pad bi n) \<Longrightarrow> hd (pad bi n) \<noteq> CHR ''0''"
  by (cases "n < 10") (simp_all add: pad_plain dec_small hd_dec)

lemma pad_0: "pad bi 0 = ''00''"
  by (simp add: pad_plain dec_small digit_char_def)

lemma pad_1: "pad bi 1 = ''01''" "pad bi (Suc 0) = ''01''"
  by (simp_all add: pad_plain dec_small digit_char_def)

lemma nearestD:
  "nearest rnd \<Longrightarrow> 0 \<le> r \<Longrightarrow> m \<le> 2 ^ 53 \<Longrightarrow> j \<le> 52 \<Longrightarrow>
   \<bar>rnd r - r\<bar> \<le> \<bar>real m / 2 ^ j - r\<bar>"
  unfolding nearest_def by blast

lemma nearest_id: "nearest id"
  by (simp add: nearest_def)

lemma floor_round_quot:
  assumes N: "nearest rnd"
    and b: "0 < b" "b < 2 ^ Suc t" and t: "t \<le> 52"
    and k: "(n div b + 1) * 2 ^ t \<le> 2 ^ 53"
  shows "\<lfloor>rnd (real n / real b)\<rfloor> = int (n div b)"
proof -
  let ?q = "real n / real b"
  let ?k = "n div b + 1"
  have q0: "0 \<le> ?q" by simp
  have rb: "0 < real b" using b(1) by simp
  have lo: "real (n div b) \<le> ?q"
  proof -
    have "n div b * b \<le> n" by simp
    then have "real (n div b * b) \<le> real n" by (rule of_nat_mono)
    then have "real (n div b) * real b \<le> real n" by simp
    with rb show ?thesis by (simp add: pos_le_divide_eq)
  qed
  have hi: "?q + 1 / real b \<le> real ?k"
  proof -
    have "n < ?k * b" using b(1) by (simp add: dividend_less_div_times)
    then have "n + 1 \<le> ?k * b" by simp
    then have "real (n + 1) \<le> real (?k * b)" by (rule of_nat_mono)
    then have "real n + 1 \<le> real ?k * real b" by (simp add: algebra_simps)
    then have "(real n + 1) / real b \<le> real ?k"
      using rb by (simp add: pos_divide_le_eq)
    then show ?thesis by (simp add: add_divide_distrib)
  qed
  have "(1::nat) \<le> 2 ^ t" by simp
  then have kk: "?k * 1 \<le> ?k * 2 ^ t" by (rule mult_le_mono2)
  have k1: "n div b \<le> 2 ^ 53"
  proof -
    from kk k have "?k * 1 \<le> 2 ^ 53" by (rule le_trans)
    then show ?thesis by simp
  qed
  have kpos: "1 \<le> ?k * 2 ^ t"
  proof -
    have "1 \<le> ?k * 1" by simp
    from this kk show ?thesis by (rule le_trans)
  qed
  have "\<bar>rnd ?q - ?q\<bar> \<le> \<bar>real (n div b) / 2 ^ 0 - ?q\<bar>"
    using N q0 k1 by (rule nearestD) simp
  with lo have ge: "real (n div b) \<le> rnd ?q" by simp
  let ?a = "real (?k * 2 ^ t - 1) / 2 ^ t"
  have a_eq: "?a = real ?k - 1 / 2 ^ t"
  proof -
    from kpos have "real (?k * 2 ^ t - 1) = real ?k * 2 ^ t - 1"
      by (simp add: of_nat_diff algebra_simps)
    then show ?thesis by (simp add: diff_divide_distrib)
  qed
  have "?k * 2 ^ t - 1 \<le> 2 ^ 53" using k by simp
  with N q0 have "\<bar>rnd ?q - ?q\<bar> \<le> \<bar>?a - ?q\<bar>"
    using t by (rule nearestD)
  moreover have "\<bar>?a - ?q\<bar> < real ?k - ?q"
  proof -
    have "real b < 2 ^ Suc t"
      using b(2) by (metis of_nat_less_iff of_nat_numeral of_nat_power)
    then have "real b < 2 * 2 ^ t" by simp
    then have "1 / (2 * 2 ^ t) < 1 / real b"
      using rb by (simp add: frac_less2)
    then have half: "1 / 2 ^ t < 2 / real b" by (simp add: field_simps)
    have pos: "(0::real) < 1 / 2 ^ t" by simp
    from hi half pos show ?thesis unfolding a_eq by linarith
  qed
  ultimately have lt: "rnd ?q < real ?k" by linarith
  from ge lt show ?thesis
    by (intro floor_unique) simp_all
qed

lemma floor_round_small:
  assumes N: "nearest rnd" and q: "0 \<le> q" "q < 3 / 4"
  shows "\<lfloor>rnd q\<rfloor> = 0"
proof -
  have "\<bar>rnd q - q\<bar> \<le> \<bar>real 0 / 2 ^ 0 - q\<bar>"
    using N q(1) by (rule nearestD) simp_all
  with q(1) have ge: "0 \<le> rnd q" by simp
  have "\<bar>rnd q - q\<bar> \<le> \<bar>real 1 / 2 ^ 1 - q\<bar>"
    using N q(1) by (rule nearestD) simp_all
  with q have lt: "rnd q < 1" by (simp add: abs_if split: if_splits)
  from ge lt show ?thesis
    by (intro floor_unique) simp_all
qed

lemma first_quot:
  assumes N: "nearest rnd" and m: "m \<le> 2 ^ 53"
  shows "\<lfloor>rnd (real m / 2 ^ j / 1000)\<rfloor> = int (m div (1000 * 2 ^ j))"
proof -
  have q: "real m / 2 ^ j / 1000 = real m / real (1000 * 2 ^ j)"
    by simp
  consider "j \<le> 42" | "j = 43" | "44 \<le> j"
    by arith
  then show ?thesis
  proof cases
    case 1
    define P :: nat where "P = 2 ^ j"
    define X where "X = m div (1000 * P) * P"
    have "(2::nat) ^ j \<le> 2 ^ 42"
      using 1 by (rule power_increasing) simp
    then have P: "P \<le> 4398046511104"
      by (simp add: P_def)
    have e: "m div (1000 * P) * (1000 * P) = 1000 * X"
      by (simp add: X_def)
    have "m div (1000 * P) * (1000 * P) \<le> m"
      by (rule div_times_less_eq_dividend)
    then have "1000 * X \<le> m"
      by (simp only: e)
    from this m have "1000 * X \<le> 2 ^ 53"
      by (rule le_trans)
    then have X: "1000 * X \<le> 9007199254740992"
      by simp
    have "(m div (1000 * P) + 1) * (512 * P) = 512 * X + 512 * P"
      by (simp add: X_def algebra_simps)
    also have "\<dots> \<le> 9007199254740992"
      using X P by arith
    finally have k: "(m div (1000 * 2 ^ j) + 1) * 2 ^ (j + 9) \<le> 2 ^ 53"
      by (simp add: P_def power_add mult.commute)
    have b: "1000 * (2::nat) ^ j < 2 ^ Suc (j + 9)"
      by (simp add: power_add)
    have "\<lfloor>rnd (real m / real (1000 * 2 ^ j))\<rfloor> = int (m div (1000 * 2 ^ j))"
      using N _ b _ k by (rule floor_round_quot) (use 1 in simp_all)
    then show ?thesis unfolding q .
  next
    case 2
    have "m div (1000 * 2 ^ 43) \<le> 2 ^ 53 div (1000 * 2 ^ 43)"
      using m by (rule div_le_mono)
    then have "m div (1000 * 2 ^ 43) \<le> 1"
      by simp
    then have "(m div (1000 * 2 ^ 43) + 1) * 2 ^ 52 \<le> 2 * 2 ^ 52"
      by (intro mult_le_mono1) simp
    then have k: "(m div (1000 * 2 ^ j) + 1) * 2 ^ 52 \<le> 2 ^ 53"
      using 2 by simp
    have b: "1000 * (2::nat) ^ j < 2 ^ Suc 52"
      using 2 by simp
    have "\<lfloor>rnd (real m / real (1000 * 2 ^ j))\<rfloor> = int (m div (1000 * 2 ^ j))"
      using N _ b _ k by (rule floor_round_quot) simp_all
    then show ?thesis unfolding q .
  next
    case 3
    have p: "(2::nat) ^ 44 \<le> 2 ^ j"
      using 3 by (intro power_increasing) simp_all
    then have pr: "(2::real) ^ 44 \<le> 2 ^ j"
      by (metis of_nat_le_iff of_nat_numeral of_nat_power)
    have mr: "real m \<le> 2 ^ 53"
      using m by (metis of_nat_le_iff of_nat_numeral of_nat_power)
    have "real m / 2 ^ j \<le> 2 ^ 53 / 2 ^ 44"
      using mr pr by (intro frac_le) simp_all
    then have "real m / 2 ^ j / 1000 < 3 / 4"
      by simp
    then have "\<lfloor>rnd (real m / 2 ^ j / 1000)\<rfloor> = 0"
      using N by (intro floor_round_small) simp_all
    moreover have "m div (1000 * 2 ^ j) = 0"
    proof -
      have "m < 1000 * 2 ^ 44" using m by simp
      also have "\<dots> \<le> 1000 * 2 ^ j" using p by simp
      finally show ?thesis by simp
    qed
    ultimately show ?thesis by simp
  qed
qed

lemma total_seconds_double: "total_seconds (Fin (real m / 2 ^ j)) = m div (1000 * 2 ^ j)"
proof -
  have q: "real m / 2 ^ j / 1000 = real m / real (1000 * 2 ^ j)"
    by simp
  have f: "\<lfloor>real m / real (1000 * 2 ^ j)\<rfloor> = int (m div (1000 * 2 ^ j))"
    by (rule floor_divide_of_nat_eq)
  have "(0::real) \<le> real m / 2 ^ j"
    by simp
  then have "max (real m / 2 ^ j) 0 = real m / 2 ^ j"
    by (rule max_absorb1)
  then have "total_seconds (Fin (real m / 2 ^ j)) = nat \<lfloor>real m / 2 ^ j / 1000\<rfloor>"
    by (simp add: total_seconds_def clamp_ms_def)
  also have "\<dots> = nat (int (m div (1000 * 2 ^ j)))"
    unfolding q f ..
  finally show ?thesis
    by simp
qed

lemma total_seconds_clamped:
  "total_seconds NaN = 0" "total_seconds PosInf = 0" "total_seconds NegInf = 0"
  "x < 0 \<Longrightarrow> total_seconds (Fin x) = 0"
  by (simp_all add: total_seconds_def clamp_ms_def max_def)

lemma formatHMS_clamped:
  "formatHMS bi NaN = formatHMS bi (Fin 0)" "formatHMS bi PosInf = formatHMS bi (Fin 0)"
  "formatHMS bi NegInf = formatHMS bi (Fin 0)"
  "x < 0 \<Longrightarrow> formatHMS bi (Fin x) = formatHMS bi (Fin 0)"
  by (simp_all add: formatHMS_def)

lemma total_bound:
  assumes "(m::nat) \<le> 2 ^ 53"
  shows "m div (1000 * 2 ^ j) \<le> 9007199254740"
proof -
  have "(1000::nat) * 1 \<le> 1000 * 2 ^ j"
    by (intro mult_le_mono2) simp
  then have "m div (1000 * 2 ^ j) \<le> m div 1000"
    by (intro div_le_mono2) simp_all
  also have "\<dots> \<le> 2 ^ 53 div 1000"
    using assms by (rule div_le_mono)
  also have "\<dots> = 9007199254740"
    by simp
  finally show ?thesis .
qed

lemma formatHMS_exact:
  assumes N: "nearest (bi_round bi)" and m: "m \<le> 2 ^ 53"
  shows "formatHMS bi (Fin (real m / 2 ^ j))
           = pad bi (total_seconds (Fin (real m / 2 ^ j)) div 3600) @ '':''
             @ pad bi (total_seconds (Fin (real m / 2 ^ j)) mod 3600 div 60) @ '':''
             @ pad bi (total_seconds (Fin (real m / 2 ^ j)) mod 60)"
proof -
  let ?T = "m div (1000 * 2 ^ j)"
  have T: "?T \<le> 9007199254740"
    using m by (rule total_bound)
  have t: "nat \<lfloor>bi_round bi (real m / 2 ^ j / 1000)\<rfloor> = ?T"
    using first_quot [OF N m, of j] by simp
  have "?T div 3600 \<le> 9007199254740 div 3600"
    using T by (rule div_le_mono)
  then have "?T div 3600 \<le> 2501999792"
    by simp
  then have "(?T div 3600 + 1) * 2 ^ 11 \<le> 2501999793 * 2 ^ 11"
    by (intro mult_le_mono1) simp
  then have kh: "(?T div 3600 + 1) * 2 ^ 11 \<le> 2 ^ 53"
    by simp
  have h: "nat \<lfloor>bi_round bi (real ?T / 3600)\<rfloor> = ?T div 3600"
    using floor_round_quot [OF N _ _ _ kh] by simp
  have "?T mod 3600 div 60 < 60"
    by (simp add: less_mult_imp_div_less)
  then have "(?T mod 3600 div 60 + 1) * 2 ^ 5 \<le> 60 * 2 ^ 5"
    by (intro mult_le_mono1) simp
  then have km: "(?T mod 3600 div 60 + 1) * 2 ^ 5 \<le> 2 ^ 53"
    by simp
  have mi: "nat \<lfloor>bi_round bi (real (?T mod 3600) / 60)\<rfloor> = ?T mod 3600 div 60"
    using floor_round_quot [OF N _ _ _ km] by simp
  have "0 \<le> real m / 2 ^ j"
    by simp
  then have "formatHMS bi (Fin (real m / 2 ^ j))
      = pad bi (?T div 3600) @ '':'' @ pad bi (?T mod 3600 div 60) @ '':'' @ pad bi (?T mod 60)"
    unfolding formatHMS_def Let_def by (simp only: t h mi jsnum.case not_less [symmetric] if_False)
  then show ?thesis
    by (simp only: total_seconds_double)
qed

lemma formatHMS_int:
  assumes "nearest (bi_round bi)" and "m \<le> 2 ^ 53"
  shows "formatHMS bi (Fin (real m))
           = pad bi (m div 1000 div 3600) @ '':'' @ pad bi (m div 1000 mod 3600 div 60) @ '':''
             @ pad bi (m div 1000 mod 60)"
  using formatHMS_exact [OF assms, of 0] total_seconds_double [of m 0] by simp

lemma nearest_sample: "nearest (bi_round sample_builtins)"
  by (simp add: sample_builtins_def nearest_id)

lemma formatHMS_samples:
  "formatHMS sample_builtins (Fin 225000) = ''00:03:45''"
  "formatHMS sample_builtins (Fin 450000) = ''00:07:30''"
proof -
  have p: "pad sample_builtins 3 = ''03''" "pad sample_builtins 45 = ''45''"
    "pad sample_builtins 7 = ''07''" "pad sample_builtins 30 = ''30''"
    by (simp_all add: pad_plain dec_small dec_large digit_char_def)
  show "formatHMS sample_builtins (Fin 225000) = ''00:03:45''"
    using formatHMS_int [OF nearest_sample, of 225000] by (simp add: pad_0 p)
  show "formatHMS sample_builtins (Fin 450000) = ''00:07:30''"
    using formatHMS_int [OF nearest_sample, of 450000] by (simp add: pad_0 p)
qed

section \<open>Evaluation of sample runs\<close>

lemmas run_defs = run_def init_def configUpdated_def connect_def on_close_def on_open_def
  on_channel_def on_error_def destroy_def subscribe_def refreshScenes_def ingestScenes_def
  definePresets_def defineActions_def defineFeedbacks_def refreshFeedbackChoices_def
  effective_config_def init_state_def reconnect_delay_def has_method_def action_callback_def
  action_id_def Let_def prim_defs timer_defs proxy_bare_def session_with_def
  own_entries_def inherited_keys_def is_array_index_def is_digit_def

lemma reachable_run: "reachable sn s \<Longrightarrow> reachable sn (run sn evs s)"
  unfolding run_def by (induction evs arbitrary: s) (simp_all add: reach_step)

lemma reachable_session: "reachable sample_builtins (session_with p now)"
  unfolding session_with_def by (rule reachable_run) (rule reach_init)

section \<open>Reconnect scheduling\<close>

text \<open>
  C1 (as amended). Every run of the close handler schedules exactly one reconnect, with
  the fixed delay of 3000 ms, and adds it to the reconnects that are already pending:
  nothing is cancelled or replaced, so \<open>n\<close> close events with no timer firing in between
  leave \<open>n\<close> more reconnects outstanding.
\<close>

theorem close_schedules_reconnect:
  "pending (on_close s) = pending s @ [reconnect_delay] \<and> reconnect_delay = 3000
   \<and> pending ((on_close ^^ n) s) = pending s @ replicate n 3000"
  by (simp add: on_close_fields pending_on_close_iter reconnect_delay_def)

theorem close_schedules_reconnect_witness:
  "pending (on_close init_state) = [3000] \<and> pending ((on_close ^^ 2) init_state) = [3000, 3000]"
  using close_schedules_reconnect [of init_state 2]
  by (simp add: init_state_def numeral_2_eq_2)

text \<open>
  The claim as stated fails: after start-up and a configuration change, the close events of
  the two sockets leave two reconnects pending at once.
\<close>

theorem two_reconnects_pending:
  "\<not> length (pending (run sample_builtins
        [Init None None, ConfigUpdated None None, SocketClose 0, SocketClose 1] init_state)) \<le> 1"
  by (simp add: run_defs)

section \<open>The proxy reference after a disconnect\<close>





section \<open>Starting a timer twice\<close>

text \<open>
  C3 (as amended). For either timer, a second call of the start operation without a stop
  in between leaves exactly one active periodic tick source, but it records the time of
  the second call as the start timestamp, so the elapsed time is counted from the second
  call. The timestamp of the first call is kept only through the guarded entry points
  (the state-change handler with an active state, and the start action), which do nothing
  while the timer is already marked active.
\<close>

theorem start_twice:
  assumes "reachable sn s"
  shows "active_ticks RecordTick (startRecording t2 (startRecording t1 s)) = 1
       \<and> recordStart (startRecording t2 (startRecording t1 s)) = Some t2
       \<and> active_ticks StreamTick (startStreaming t2 (startStreaming t1 s)) = 1
       \<and> streamStart (startStreaming t2 (startStreaming t1 s)) = Some t2
       \<and> onRecordingStateChange True t2 (startRecording t1 s) = startRecording t1 s
       \<and> onStreamingStateChange True t2 (startStreaming t1 s) = startStreaming t1 s
       \<and> local_part StartRecord t2 (startRecording t1 s) = startRecording t1 s
       \<and> local_part StartStream t2 (startStreaming t1 s) = startStreaming t1 s"
proof -
  have c: "timers_consistent s"
    using assms by (rule reachable_timers_consistent)
  have "timers_consistent (startRecording t1 s)"
    using c by (rule tc_startRecording)
  then have r: "active_ticks RecordTick (startRecording t2 (startRecording t1 s)) = 1"
    by (rule startRecording_ticks)
  have "timers_consistent (startStreaming t1 s)"
    using c by (rule tc_startStreaming)
  then have t: "active_ticks StreamTick (startStreaming t2 (startStreaming t1 s)) = 1"
    by (rule startStreaming_ticks)
  show ?thesis
    using r t
    by (simp add: startRecording_fields startStreaming_fields onRecordingStateChange_def
        onStreamingStateChange_def)
qed

theorem start_twice_witness:
  "reachable sample_builtins init_state
   \<and> active_ticks RecordTick (startRecording 5000 (startRecording 1000 init_state)) = 1
   \<and> recordStart (startRecording 5000 (startRecording 1000 init_state)) = Some 5000
   \<and> recordStart (onRecordingStateChange True 5000 (startRecording 1000 init_state)) = Some 1000"
proof -
  have r: "reachable sample_builtins init_state"
    by (rule reach_init)
  show ?thesis
    using r start_twice [OF r, of 5000 1000]
    by (simp add: startRecording_fields)
qed

text \<open>
  The claim as stated fails: a start at time 1000 and a second start at time 226000 leave
  the start timestamp 226000, and the tick at time 451000 publishes \<open>00:03:45\<close> where a
  single start would publish \<open>00:07:30\<close>.
\<close>

theorem second_start_resets:
  "recordStart (startRecording 226000 (startRecording 1000 init_state)) = Some 226000
   \<and> recordStart (startRecording 1000 init_state) = Some 1000
   \<and> variables (record_tick sample_builtins 451000
          (startRecording 226000 (startRecording 1000 init_state)))
        ''recording_timecode'' = Some ''00:03:45''
   \<and> variables (record_tick sample_builtins 451000 (startRecording 1000 init_state))
        ''recording_timecode'' = Some ''00:07:30''"
  by (simp add: record_tick_def setVariableValue_def startRecording_fields elapsed_def
      formatHMS_samples)

section \<open>The close handler and the published time codes\<close>

text \<open>
  C9. When the close event of the socket fires, both periodic tick timers are cancelled
  and the status reported is disconnected, while the published values of the variables,
  \<open>recording_timecode\<close> and \<open>streaming_timecode\<close> among them, stay as they are; an explicit
  stop of a timer, in contrast, publishes \<open>00:00:00\<close>.
\<close>

theorem close_keeps_timecodes:
  assumes "reachable sn s"
  shows "recordTimer (on_close s) = None \<and> streamTimer (on_close s) = None
       \<and> intervals (on_close s) = []
       \<and> last (status (on_close s)) = StDisconnected
       \<and> variables (on_close s) = variables s
       \<and> variables (stopRecording s) ''recording_timecode'' = Some ''00:00:00''
       \<and> variables (stopStreaming s) ''streaming_timecode'' = Some ''00:00:00''"
proof -
  have "timers_consistent s"
    using assms by (rule reachable_timers_consistent)
  then have "intervals (on_close s) = []"
    by (rule intervals_on_close)
  then show ?thesis
    by (simp add: on_close_fields stopRecording_variable stopStreaming_variable)
qed

lemma recording_session_facts:
  "variables recording_session ''recording_timecode'' = Some ''00:03:45''"
  "intervals recording_session = [(1, RecordTick)]"
  "recordTimer recording_session = Some 1"
  by (simp_all add: recording_session_def run_defs record_tick_def stream_tick_def elapsed_def
      formatHMS_samples)

theorem close_keeps_timecodes_witness:
  "reachable sample_builtins recording_session
   \<and> intervals recording_session = [(1, RecordTick)]
   \<and> intervals (on_close recording_session) = []
   \<and> recordTimer (on_close recording_session) = None
   \<and> variables (on_close recording_session) ''recording_timecode'' = Some ''00:03:45''"
proof -
  have r: "reachable sample_builtins recording_session"
    unfolding recording_session_def by (rule reach_step) (rule reachable_session)
  show ?thesis
    using r close_keeps_timecodes [OF r]
    by (simp add: recording_session_facts)
qed

section \<open>Scene discovery without a source\<close>

text \<open>
  C8 (as amended). When the scene refresh runs against a bound proxy that exposes neither
  a \<open>getScenes\<close> function nor a \<open>session.items\<close> mapping, a warning is logged and nothing
  else changes: the scene set is left as it was (empty only if it was empty before), and
  no error is raised.
\<close>

theorem refresh_without_source:
  assumes "qweb s = Some q" and "\<not> has_method q ''getScenes''" and "session_items q = None"
  shows "refreshScenes s = s\<lparr> logs := logs s @ [(LvWarn, LogNoSceneSource)] \<rparr>
       \<and> scenes (refreshScenes s) = scenes s"
  using assms by (simp add: refreshScenes_def log_msg_def)

theorem refresh_without_source_witness:
  "scenes (refreshScenes (init_state\<lparr> qweb := Some proxy_bare,
       scenes := [(''A'', \<lparr> sc_id = ''A'', sc_name = ''Cam'' \<rparr>)] \<rparr>))
     = [(''A'', \<lparr> sc_id = ''A'', sc_name = ''Cam'' \<rparr>)]
   \<and> logs (refreshScenes (init_state\<lparr> qweb := Some proxy_bare,
       scenes := [(''A'', \<lparr> sc_id = ''A'', sc_name = ''Cam'' \<rparr>)] \<rparr>))
     = [(LvWarn, LogNoSceneSource)]"
proof -
  let ?s = "init_state\<lparr> qweb := Some proxy_bare,
       scenes := [(''A'', \<lparr> sc_id = ''A'', sc_name = ''Cam'' \<rparr>)] \<rparr>"
  have a: "qweb ?s = Some proxy_bare" by simp
  have b: "\<not> has_method proxy_bare ''getScenes''" by (simp add: has_method_def proxy_bare_def)
  have c: "session_items proxy_bare = None" by (simp add: proxy_bare_def)
  show ?thesis
    using refresh_without_source [OF a b c] by (simp add: init_state_def)
qed

text \<open>
  The claim as stated fails: the scene found through the first connection is still in the
  scene set after a reconnect to a proxy without any scene source.
\<close>

theorem stale_scenes_survive:
  "scenes (run sample_builtins
      [Init None None, SocketOpen 0 True,
       ChannelReady 0 (Some (proxy_bare\<lparr>methods := [''getScenes'']\<rparr>)) 1000,
       ScenesReply (Some [\<lparr> rs_id = ''A'', rs_name = Some ''Cam'' \<rparr>]),
       SocketClose 0, ReconnectFire None, SocketOpen 1 True,
       ChannelReady 1 (Some proxy_bare) 9000] init_state)
   = [(''A'', \<lparr> sc_id = ''A'', sc_name = ''Cam'' \<rparr>)]"
  by (simp add: run_defs ingest_loop_def obj_assign_def cleanName_def name_or_id_def re_eval)


section \<open>Replacement of the scene registry\<close>

lemma ingest_replaces:
  "scenes (ingestScenes b (ingestScenes a s)) = scenes (ingestScenes b s)"
  "scenes_proto (ingestScenes b (ingestScenes a s)) = scenes_proto (ingestScenes b s)"
  "fst ` set (scenes (ingestScenes b s))
     = rs_id ` set (case b of None \<Rightarrow> [] | Some arr \<Rightarrow> arr) - {''__proto__''}"
  "distinct (map fst (scenes (ingestScenes b s)))"
  by (simp_all add: scenes_ingestScenes keys_ingest_loop distinct_ingest_loop)

text \<open>
  C5. The claim holds of \<open>_ingestScenes\<close> for every identifier but one: a scene whose
  identifier is \<open>__proto__\<close> gets no entry. The assignment \<open>this.scenes[scene.id] = ...\<close>
  then sets the prototype of the mapping instead of storing a property, so the mapping
  stays without an entry for that identifier, and the \<open>for ... in\<close> loops that follow list
  the inherited keys \<open>id\<close> and \<open>name\<close> as if they were scenes.
\<close>

theorem proto_scene_not_stored:
  "scenes (ingestScenes (Some [\<lparr> rs_id = ''__proto__'', rs_name = Some ''Cam'' \<rparr>]) init_state) = []
   \<and> scenes_proto (ingestScenes (Some [\<lparr> rs_id = ''__proto__'', rs_name = Some ''Cam'' \<rparr>])
        init_state) = Some \<lparr> sc_id = ''__proto__'', sc_name = ''Cam'' \<rparr>
   \<and> action_defs (ingestScenes (Some [\<lparr> rs_id = ''__proto__'', rs_name = Some ''Cam'' \<rparr>])
        init_state)
       = [''show_scene_id'', ''show_scene_name'', ''toggle_stream'', ''start_stream'',
          ''stop_stream'', ''toggle_record'', ''start_record'', ''stop_record'']"
  by (simp add: ingestScenes_def Let_def ingest_loop_def obj_assign_def cleanName_def
      name_or_id_def re_eval definePresets_def refreshFeedbackChoices_def defineActions_def
      own_entries_def inherited_keys_def init_state_def)

section \<open>Normalisation of scene names\<close>

text \<open>
  C6 (as amended). For an identifier other than \<open>__proto__\<close>, the entry stored under it
  comes from the last scene of the input with that identifier; its key and its id field
  are the raw identifier, never modified. The text that is normalised is the raw name, or
  the raw identifier when the name is absent or empty. The stored display name is that
  text cut at the leftmost position from which the rest consists of optional white space,
  an opening parenthesis, any characters other than line terminators, a closing
  parenthesis and optional white space up to the end of the text; the text is stored
  unchanged when there is no such position. White space is what \<open>\s\<close> matches: the ASCII
  white space and line terminators and the Unicode ones (U+00A0, U+1680, U+2000 to
  U+200A, U+2028, U+2029, U+202F, U+205F, U+3000, U+FEFF). So everything from the first
  such opening parenthesis on is removed, not only the last group. \<open>"Main (Program)"\<close>
  becomes \<open>"Main"\<close>, also with a no-break space before the parenthesis, \<open>"Lower Thirds"\<close> is
  unchanged, and an empty name with id \<open>"s1"\<close> yields \<open>"s1"\<close>.
\<close>

theorem scene_name_stored:
  "(i \<noteq> ''__proto__'' \<longrightarrow>
      map_of (scenes (ingestScenes (Some arr) s)) i
        = (case find (\<lambda>sc. rs_id sc = i) (rev arr) of None \<Rightarrow> None
           | Some sc \<Rightarrow> Some \<lparr> sc_id = i, sc_name = strip_paren (name_or_id sc) \<rparr>))
   \<and> (rs_name sc = None \<or> rs_name sc = Some [] \<longrightarrow> name_or_id sc = rs_id sc)
   \<and> (rs_name sc = Some n \<and> n \<noteq> [] \<longrightarrow> name_or_id sc = n)
   \<and> (match_at t \<longleftrightarrow>
        (\<exists>w b e. t = w @ CHR ''('' # b @ CHR '')'' # e \<and> all_space w
           \<and> no_line_terminator b \<and> all_space e))
   \<and> (all_space w \<longleftrightarrow> (\<exists>xs. w = concat xs \<and> set xs \<subseteq> set ws1 \<union> set ws2 \<union> set ws3))
   \<and> (k < length t \<and> match_at (drop k t) \<and> (\<forall>j<k. \<not> match_at (drop j t))
        \<longrightarrow> strip_paren t = take k t)
   \<and> ((\<forall>j<length t. \<not> match_at (drop j t)) \<longrightarrow> strip_paren t = t)
   \<and> strip_paren ''Main (Program)'' = ''Main''
   \<and> strip_paren (''Main'' @ [CHR 0xC2, CHR 0xA0] @ ''(Program)'') = ''Main''
   \<and> strip_paren ''Lower Thirds'' = ''Lower Thirds''
   \<and> cleanName \<lparr> rs_id = ''s1'', rs_name = Some [] \<rparr> = ''s1''"
proof -
  have stored: "i \<noteq> ''__proto__'' \<longrightarrow>
      map_of (scenes (ingestScenes (Some arr) s)) i
        = (case find (\<lambda>sc. rs_id sc = i) (rev arr) of None \<Rightarrow> None
           | Some sc \<Rightarrow> Some \<lparr> sc_id = i, sc_name = strip_paren (name_or_id sc) \<rparr>)"
  proof
    assume i: "i \<noteq> ''__proto__''"
    show "map_of (scenes (ingestScenes (Some arr) s)) i
        = (case find (\<lambda>sc. rs_id sc = i) (rev arr) of None \<Rightarrow> None
           | Some sc \<Rightarrow> Some \<lparr> sc_id = i, sc_name = strip_paren (name_or_id sc) \<rparr>)"
    proof (cases "find (\<lambda>sc. rs_id sc = i) (rev arr)")
      case None
      then show ?thesis
        using i by (simp add: scenes_ingestScenes map_of_ingest_loop)
    next
      case (Some x)
      then have "rs_id x = i"
        by (rule find_Some_holds)
      with Some show ?thesis
        using i by (simp add: scenes_ingestScenes map_of_ingest_loop cleanName_def)
    qed
  qed
  have absent: "rs_name sc = None \<or> rs_name sc = Some [] \<longrightarrow> name_or_id sc = rs_id sc"
    by (auto simp: name_or_id_def)
  have present: "rs_name sc = Some n \<and> n \<noteq> [] \<longrightarrow> name_or_id sc = n"
    by (simp add: name_or_id_def)
  have cut: "k < length t \<and> match_at (drop k t) \<and> (\<forall>j<k. \<not> match_at (drop j t))
        \<longrightarrow> strip_paren t = take k t"
    using strip_paren_cut [of k t] by blast
  have none: "(\<forall>j<length t. \<not> match_at (drop j t)) \<longrightarrow> strip_paren t = t"
    using strip_paren_none [of t] by blast
  have s1: "cleanName \<lparr> rs_id = ''s1'', rs_name = Some [] \<rparr> = ''s1''"
    by (simp add: cleanName_def name_or_id_def re_eval)
  show ?thesis
    using stored absent present match_at_iff [of t] all_space_iff [of w] cut none s1
      strip_paren_samples(1,2,7)
    by blast
qed

theorem scene_name_stored_witness:
  "map_of (scenes (ingestScenes
       (Some [\<lparr> rs_id = ''1'', rs_name = Some ''Main (Program)'' \<rparr>]) init_state)) ''1''
     = Some \<lparr> sc_id = ''1'', sc_name = ''Main'' \<rparr>
   \<and> match_at '' (Program)''
   \<and> all_space '' ''
   \<and> strip_paren ''Main (Program)'' = take 4 ''Main (Program)''"
proof -
  have m: "match_at (drop 4 ''Main (Program)'')"
    by (simp add: re_eval)
  have n: "\<forall>j<4. \<not> match_at (drop j ''Main (Program)'')"
  proof (intro allI impI)
    fix j :: nat
    assume "j < 4"
    then have "j = 0 \<or> j = 1 \<or> j = 2 \<or> j = 3" by arith
    then show "\<not> match_at (drop j ''Main (Program)'')"
      by (auto simp: re_eval)
  qed
  have l: "(4::nat) < length ''Main (Program)''"
    by simp
  have p: "''1'' \<noteq> ''__proto__''"
    by simp
  have f: "find (\<lambda>sc. rs_id sc = ''1'') (rev [\<lparr> rs_id = ''1'', rs_name = Some ''Main (Program)'' \<rparr>])
             = Some \<lparr> rs_id = ''1'', rs_name = Some ''Main (Program)'' \<rparr>"
    by simp
  have g: "name_or_id \<lparr> rs_id = ''1'', rs_name = Some ''Main (Program)'' \<rparr> = ''Main (Program)''"
    by (simp add: name_or_id_def)
  have d: "drop 4 ''Main (Program)'' = '' (Program)''"
    by simp
  have c: "'' '' = concat [[CHR 0x20]] \<and> set [[CHR 0x20]] \<subseteq> set ws1 \<union> set ws2 \<union> set ws3"
    by (simp add: ws1_def)
  note w = scene_name_stored [of "''1''" "[\<lparr> rs_id = ''1'', rs_name = Some ''Main (Program)'' \<rparr>]"
      init_state "\<lparr> rs_id = ''1'', rs_name = Some ''Main (Program)'' \<rparr>"
      "''Main (Program)''" "''Main (Program)''" "'' ''" 4]
  have a: "map_of (scenes (ingestScenes
       (Some [\<lparr> rs_id = ''1'', rs_name = Some ''Main (Program)'' \<rparr>]) init_state)) ''1''
     = Some \<lparr> sc_id = ''1'', sc_name = ''Main'' \<rparr>"
  proof -
    have "map_of (scenes (ingestScenes
         (Some [\<lparr> rs_id = ''1'', rs_name = Some ''Main (Program)'' \<rparr>]) init_state)) ''1''
       = (case find (\<lambda>sc. rs_id sc = ''1'')
                 (rev [\<lparr> rs_id = ''1'', rs_name = Some ''Main (Program)'' \<rparr>]) of None \<Rightarrow> None
           | Some sc \<Rightarrow> Some \<lparr> sc_id = ''1'', sc_name = strip_paren (name_or_id sc) \<rparr>)"
      using w p by blast
    moreover have "strip_paren ''Main (Program)'' = ''Main''"
      using w by blast
    ultimately show ?thesis
      by (simp only: f g option.case)
  qed
  have b: "strip_paren ''Main (Program)'' = take 4 ''Main (Program)''"
    using w l m n by blast
  have e: "all_space '' ''"
    using w c by blast
  show ?thesis
    using a b e m d by simp
qed

text \<open>
  The claim as stated fails: with two groups at the end, both are removed, where removing
  one trailing group would leave \<open>"Cam (A)"\<close>.
\<close>

theorem both_groups_removed:
  "map_of (scenes (ingestScenes
       (Some [\<lparr> rs_id = ''1'', rs_name = Some ''Cam (A) (Live)'' \<rparr>]) init_state)) ''1''
     = Some \<lparr> sc_id = ''1'', sc_name = ''Cam'' \<rparr>
   \<and> spec_strip_group ''Cam (A) (Live)'' = ''Cam (A)''"
  by (simp add: scenes_ingestScenes ingest_loop_def obj_assign_def cleanName_def name_or_id_def
      re_eval spec_strip_group_def)


section \<open>Record and stream actions\<close>

lemma remote_calls_toggle:
  "remote_calls (remote_part ToggleRecord s) = remote_calls s @
     (case qweb s of None \<Rightarrow> []
      | Some q \<Rightarrow> if has_method q ''toggleRecord'' then [(''toggleRecord'', [])]
                  else if has_method q ''toggleRecording'' then [(''toggleRecording'', [])]
                  else [])"
  "remote_calls (remote_part ToggleStream s) = remote_calls s @
     (case qweb s of None \<Rightarrow> []
      | Some q \<Rightarrow> if has_method q ''toggleStream'' then [(''toggleStream'', [])]
                  else if has_method q ''toggleStreaming'' then [(''toggleStreaming'', [])]
                  else [])"
  by (simp_all add: call_remote_def split: option.splits)

lemma remote_calls_start_stop:
  "remote_calls (remote_part StartRecord s) = remote_calls s @
     (case qweb s of None \<Rightarrow> []
      | Some q \<Rightarrow> if has_method q ''startRecord'' then [(''startRecord'', [])] else [])"
  "remote_calls (remote_part StopRecord s) = remote_calls s @
     (case qweb s of None \<Rightarrow> []
      | Some q \<Rightarrow> if has_method q ''stopRecord'' then [(''stopRecord'', [])] else [])"
  "remote_calls (remote_part StartStream s) = remote_calls s @
     (case qweb s of None \<Rightarrow> []
      | Some q \<Rightarrow> if has_method q ''startStream'' then [(''startStream'', [])] else [])"
  "remote_calls (remote_part StopStream s) = remote_calls s @
     (case qweb s of None \<Rightarrow> []
      | Some q \<Rightarrow> if has_method q ''stopStream'' then [(''stopStream'', [])] else [])"
  by (simp_all add: call_remote_def split: option.splits)

lemma local_transitions:
  "action_callback ToggleRecord now s
     = onRecordingStateChange (\<not> isRecording s) now (remote_part ToggleRecord s)"
  "action_callback StartRecord now s = onRecordingStateChange True now (remote_part StartRecord s)"
  "action_callback StopRecord now s = onRecordingStateChange False now (remote_part StopRecord s)"
  "action_callback ToggleStream now s
     = onStreamingStateChange (\<not> isStreaming s) now (remote_part ToggleStream s)"
  "action_callback StartStream now s = onStreamingStateChange True now (remote_part StartStream s)"
  "action_callback StopStream now s = onStreamingStateChange False now (remote_part StopStream s)"
  unfolding action_callback_def onRecordingStateChange_def onStreamingStateChange_def
  by (simp_all add: remote_part_flags del: remote_part.simps)

text \<open>
  C7 (as amended). When a proxy is bound, the toggle actions invoke the remote command
  under its primary name (\<open>toggleRecord\<close>, \<open>toggleStream\<close>) and fall back to the alternate
  name (\<open>toggleRecording\<close>, \<open>toggleStreaming\<close>) when the primary is absent; the start and
  stop actions try a single name each (\<open>startRecord\<close>, \<open>stopRecord\<close>, \<open>startStream\<close>,
  \<open>stopStream\<close>) and make no remote call when it is absent. In every case (proxy present or
  absent, method present or absent) the callback then performs the local transition
  through the entry points of the remote-driven transitions: toggle switches to the
  opposite of the current flag, start starts unless already active, stop stops if active.
\<close>

theorem action_remote_then_local:
  "remote_calls (action_callback ToggleRecord now s) = remote_calls s @
     (case qweb s of None \<Rightarrow> []
      | Some q \<Rightarrow> if has_method q ''toggleRecord'' then [(''toggleRecord'', [])]
                  else if has_method q ''toggleRecording'' then [(''toggleRecording'', [])]
                  else [])
   \<and> remote_calls (action_callback ToggleStream now s) = remote_calls s @
     (case qweb s of None \<Rightarrow> []
      | Some q \<Rightarrow> if has_method q ''toggleStream'' then [(''toggleStream'', [])]
                  else if has_method q ''toggleStreaming'' then [(''toggleStreaming'', [])]
                  else [])
   \<and> remote_calls (action_callback StartRecord now s) = remote_calls s @
     (case qweb s of None \<Rightarrow> []
      | Some q \<Rightarrow> if has_method q ''startRecord'' then [(''startRecord'', [])] else [])
   \<and> remote_calls (action_callback StopRecord now s) = remote_calls s @
     (case qweb s of None \<Rightarrow> []
      | Some q \<Rightarrow> if has_method q ''stopRecord'' then [(''stopRecord'', [])] else [])
   \<and> remote_calls (action_callback StartStream now s) = remote_calls s @
     (case qweb s of None \<Rightarrow> []
      | Some q \<Rightarrow> if has_method q ''startStream'' then [(''startStream'', [])] else [])
   \<and> remote_calls (action_callback StopStream now s) = remote_calls s @
     (case qweb s of None \<Rightarrow> []
      | Some q \<Rightarrow> if has_method q ''stopStream'' then [(''stopStream'', [])] else [])
   \<and> action_callback ToggleRecord now s
        = onRecordingStateChange (\<not> isRecording s) now (remote_part ToggleRecord s)
   \<and> action_callback StartRecord now s
        = onRecordingStateChange True now (remote_part StartRecord s)
   \<and> action_callback StopRecord now s
        = onRecordingStateChange False now (remote_part StopRecord s)
   \<and> action_callback ToggleStream now s
        = onStreamingStateChange (\<not> isStreaming s) now (remote_part ToggleStream s)
   \<and> action_callback StartStream now s
        = onStreamingStateChange True now (remote_part StartStream s)
   \<and> action_callback StopStream now s
        = onStreamingStateChange False now (remote_part StopStream s)"
proof -
  have calls:
    "remote_calls (action_callback ToggleRecord now s) = remote_calls (remote_part ToggleRecord s)"
    "remote_calls (action_callback ToggleStream now s) = remote_calls (remote_part ToggleStream s)"
    "remote_calls (action_callback StartRecord now s) = remote_calls (remote_part StartRecord s)"
    "remote_calls (action_callback StopRecord now s) = remote_calls (remote_part StopRecord s)"
    "remote_calls (action_callback StartStream now s) = remote_calls (remote_part StartStream s)"
    "remote_calls (action_callback StopStream now s) = remote_calls (remote_part StopStream s)"
    by (rule remote_calls_action_callback)+
  show ?thesis
    unfolding calls remote_calls_toggle remote_calls_start_stop
    by (intro conjI refl) (rule local_transitions)+
qed

theorem action_remote_then_local_witness:
  "remote_calls (action_callback ToggleRecord 2000
      (session_with (proxy_bare\<lparr>methods := [''toggleRecording'']\<rparr>) 1000))
     = [(''toggleRecording'', [])]
   \<and> isRecording (action_callback ToggleRecord 2000
      (session_with (proxy_bare\<lparr>methods := [''toggleRecording'']\<rparr>) 1000))
   \<and> remote_calls (action_callback StartStream 2000 init_state) = []
   \<and> isStreaming (action_callback StartStream 2000 init_state)"
proof -
  let ?s = "session_with (proxy_bare\<lparr>methods := [''toggleRecording'']\<rparr>) 1000"
  have q: "qweb ?s = Some (proxy_bare\<lparr>methods := [''toggleRecording'']\<rparr>)"
    "remote_calls ?s = []" "\<not> isRecording ?s"
    by (simp_all add: run_defs)
  have m: "\<not> has_method (proxy_bare\<lparr>methods := [''toggleRecording'']\<rparr>) ''toggleRecord''"
    "has_method (proxy_bare\<lparr>methods := [''toggleRecording'']\<rparr>) ''toggleRecording''"
    by (simp_all add: has_method_def)
  have n: "qweb init_state = None" "remote_calls init_state = []" "\<not> isStreaming init_state"
    by (simp_all add: init_state_def)
  have a: "remote_calls (action_callback ToggleRecord 2000 ?s) = [(''toggleRecording'', [])]"
    using action_remote_then_local [of 2000 ?s, THEN conjunct1] q m by simp
  have b: "isRecording (action_callback ToggleRecord 2000 ?s)"
    using action_remote_then_local [of 2000 ?s, THEN conjunct2, THEN conjunct2, THEN conjunct2, THEN conjunct2, THEN conjunct2, THEN conjunct2, THEN conjunct1] q
    by (simp add: onRecordingStateChange_def remote_part_flags startRecording_fields
        del: remote_part.simps)
  have c: "remote_calls (action_callback StartStream 2000 init_state) = []"
    using action_remote_then_local [of 2000 init_state, THEN conjunct2, THEN conjunct2, THEN conjunct2, THEN conjunct2, THEN conjunct1] n by simp
  have d: "isStreaming (action_callback StartStream 2000 init_state)"
    using action_remote_then_local [of 2000 init_state, THEN conjunct2, THEN conjunct2, THEN conjunct2, THEN conjunct2, THEN conjunct2, THEN conjunct2, THEN conjunct2, THEN conjunct2, THEN conjunct2, THEN conjunct2, THEN conjunct1] n
    by (simp add: onStreamingStateChange_def remote_part_flags startStreaming_fields
        del: remote_part.simps)
  show ?thesis
    using a b c d by simp
qed

text \<open>
  The claim as stated fails for the start and stop actions: with a proxy that lacks
  \<open>startRecord\<close> the start action makes no remote call, whatever other names the proxy
  exposes.
\<close>

theorem start_has_no_fallback:
  "remote_calls (action_callback StartRecord 2000
      (session_with (proxy_bare\<lparr>methods :=
          [''startRecording'', ''toggleRecord'', ''toggleRecording'']\<rparr>) 1000)) = []"
  by (simp add: run_defs)

section \<open>Effective configuration\<close>

text \<open>
  C10 (as amended). For every configuration object passed to \<open>init\<close> or \<open>configUpdated\<close>
  (absent and malformed ones included), the effective host is the given host whenever
  that value is truthy, which covers every non-empty string but also a non-zero number or
  \<open>true\<close>, and \<open>"127.0.0.1"\<close> when it is falsy (absent, null, empty string, zero, NaN,
  false); the effective port is \<open>Number(port)\<close> when that value is truthy (non-zero and not
  NaN) and 13376 otherwise. So a missing, zero or non-numeric port falls back to the
  default without an error, and a non-zero number out of range is kept as it is.
\<close>

theorem effective_host_port:
  "config (init sn c ctor s) = effective_config sn c
   \<and> config (configUpdated sn c ctor s) = effective_config sn c
   \<and> effective_config sn None = \<lparr> host = JStr ''127.0.0.1'', port = Fin 13376 \<rparr>
   \<and> (truthy (in_host ci) \<longrightarrow> host (effective_config sn (Some ci)) = in_host ci)
   \<and> (\<not> truthy (in_host ci) \<longrightarrow> host (effective_config sn (Some ci)) = JStr ''127.0.0.1'')
   \<and> (in_host ci = JStr h \<and> h \<noteq> [] \<longrightarrow> host (effective_config sn (Some ci)) = JStr h)
   \<and> (num_truthy (Number sn (in_port ci)) \<longrightarrow>
        port (effective_config sn (Some ci)) = Number sn (in_port ci))
   \<and> (\<not> num_truthy (Number sn (in_port ci)) \<longrightarrow>
        port (effective_config sn (Some ci)) = Fin 13376)
   \<and> (in_port ci = JUndefined \<or> in_port ci = JNull \<or> in_port ci = JNum (Fin 0)
        \<or> in_port ci = JNum NaN \<or> (in_port ci = JStr t \<and> sn t = NaN) \<longrightarrow>
        port (effective_config sn (Some ci)) = Fin 13376)
   \<and> (in_port ci = JNum (Fin x) \<and> x \<noteq> 0 \<longrightarrow> port (effective_config sn (Some ci)) = Fin x)"
proof -
  have a: "config (init sn c ctor s) = effective_config sn c"
    by (simp add: init_def Let_def config_connect definePresets_def defineActions_def
        defineFeedbacks_def setVariableValue_def updateStatus_def)
  have b: "config (configUpdated sn c ctor s) = effective_config sn c"
    by (simp add: configUpdated_def Let_def config_connect log_msg_def)
  have d: "effective_config sn None = \<lparr> host = JStr ''127.0.0.1'', port = Fin 13376 \<rparr>"
    by (simp add: effective_config_def)
  have e: "in_port ci = JUndefined \<or> in_port ci = JNull \<or> in_port ci = JNum (Fin 0)
        \<or> in_port ci = JNum NaN \<or> (in_port ci = JStr t \<and> sn t = NaN) \<longrightarrow>
        port (effective_config sn (Some ci)) = Fin 13376"
    by (auto simp: effective_config_def Let_def)
  have f: "in_port ci = JNum (Fin x) \<and> x \<noteq> 0 \<longrightarrow> port (effective_config sn (Some ci)) = Fin x"
    by (simp add: effective_config_def Let_def)
  have g: "in_host ci = JStr h \<and> h \<noteq> [] \<longrightarrow> host (effective_config sn (Some ci)) = JStr h"
    by (simp add: effective_config_def Let_def)
  show ?thesis
    using a b d e f g by (simp add: effective_config_def Let_def)
qed

theorem effective_host_port_witness:
  "config (init sample_str2num (Some \<lparr> in_host = JStr ''10.0.0.5'', in_port = JStr ''8080'' \<rparr>)
      None init_state) = \<lparr> host = JStr ''10.0.0.5'', port = Fin 8080 \<rparr>
   \<and> port (effective_config sample_str2num
        (Some \<lparr> in_host = JStr [], in_port = JStr ''abc'' \<rparr>)) = Fin 13376
   \<and> host (effective_config sample_str2num
        (Some \<lparr> in_host = JStr [], in_port = JStr ''abc'' \<rparr>)) = JStr ''127.0.0.1''
   \<and> port (effective_config sample_str2num
        (Some \<lparr> in_host = JUndefined, in_port = JNum (Fin 70000) \<rparr>)) = Fin 70000"
proof -
  have a: "config (init sample_str2num
      (Some \<lparr> in_host = JStr ''10.0.0.5'', in_port = JStr ''8080'' \<rparr>) None init_state)
      = \<lparr> host = JStr ''10.0.0.5'', port = Fin 8080 \<rparr>"
    using effective_host_port [of sample_str2num
        "Some \<lparr> in_host = JStr ''10.0.0.5'', in_port = JStr ''8080'' \<rparr>" None init_state]
    by (simp add: effective_config_def Let_def sample_str2num_def)
  have b: "port (effective_config sample_str2num
        (Some \<lparr> in_host = JStr [], in_port = JStr ''abc'' \<rparr>)) = Fin 13376
     \<and> host (effective_config sample_str2num
        (Some \<lparr> in_host = JStr [], in_port = JStr ''abc'' \<rparr>)) = JStr ''127.0.0.1''"
    using effective_host_port [of sample_str2num _ _ _
        "\<lparr> in_host = JStr [], in_port = JStr ''abc'' \<rparr>" _ "''abc''"]
    by (simp add: sample_str2num_def)
  have c: "port (effective_config sample_str2num
        (Some \<lparr> in_host = JUndefined, in_port = JNum (Fin 70000) \<rparr>)) = Fin 70000"
    using effective_host_port [of sample_str2num _ _ _
        "\<lparr> in_host = JUndefined, in_port = JNum (Fin 70000) \<rparr>" _ _ 70000]
    by simp
  show ?thesis
    using a b c by simp
qed

text \<open>
  The claim as stated fails for a host that is not a string: the number 42 is truthy, so
  it is kept as the host instead of being replaced by \<open>"127.0.0.1"\<close>.
\<close>

theorem numeric_host_is_kept:
  "host (config (init sample_str2num
      (Some \<lparr> in_host = JNum (Fin 42), in_port = JUndefined \<rparr>) None init_state))
     = JNum (Fin 42)
   \<and> host (config (configUpdated sample_str2num
      (Some \<lparr> in_host = JNum (Fin 42), in_port = JUndefined \<rparr>) None init_state))
     = JNum (Fin 42)"
  by (simp add: run_defs)


section \<open>The format of the time code\<close>

lemma fields_double:
  assumes N: "nearest (bi_round bi)" and m: "m \<le> 2 ^ 53"
  shows "\<exists>hh mm ss. formatHMS bi (Fin (real m / 2 ^ j)) = hh @ '':'' @ mm @ '':'' @ ss
            \<and> list_all is_digit hh \<and> list_all is_digit mm \<and> list_all is_digit ss
            \<and> 2 \<le> length hh \<and> length mm = 2 \<and> length ss = 2
            \<and> (2 < length hh \<longrightarrow> hd hh \<noteq> CHR ''0'')
            \<and> dec_val hh = total_seconds (Fin (real m / 2 ^ j)) div 3600
            \<and> dec_val mm = total_seconds (Fin (real m / 2 ^ j)) mod 3600 div 60
            \<and> dec_val ss = total_seconds (Fin (real m / 2 ^ j)) mod 60"
proof -
  let ?t = "total_seconds (Fin (real m / 2 ^ j))"
  have "?t \<le> 9007199254740"
    unfolding total_seconds_double using m by (rule total_bound)
  then have t: "?t < 2 ^ 53"
    by simp
  have hle: "?t div 3600 \<le> ?t"
    by simp
  from hle t have h53: "?t div 3600 < 2 ^ 53"
    by (rule le_less_trans)
  have mi: "?t mod 3600 div 60 < 60" by (simp add: less_mult_imp_div_less)
  have s: "?t mod 60 < 60" by simp
  have m53: "?t mod 3600 div 60 < 2 ^ 53" using mi by simp
  have s53: "?t mod 60 < 2 ^ 53" using s by simp
  have m100: "?t mod 3600 div 60 < 100" using mi by simp
  have s100: "?t mod 60 < 100" using s by simp
  have "formatHMS bi (Fin (real m / 2 ^ j))
          = pad bi (?t div 3600) @ '':'' @ pad bi (?t mod 3600 div 60) @ '':'' @ pad bi (?t mod 60)"
    using N m by (rule formatHMS_exact)
  moreover have "list_all is_digit (pad bi (?t div 3600))" using h53 by (rule pad_digits)
  moreover have "list_all is_digit (pad bi (?t mod 3600 div 60))" using m53 by (rule pad_digits)
  moreover have "list_all is_digit (pad bi (?t mod 60))" using s53 by (rule pad_digits)
  moreover have "2 \<le> length (pad bi (?t div 3600))" using h53 by (rule pad_length_ge)
  moreover have "length (pad bi (?t mod 3600 div 60)) = 2" using m100 by (rule pad_length_two)
  moreover have "length (pad bi (?t mod 60)) = 2" using s100 by (rule pad_length_two)
  moreover have "2 < length (pad bi (?t div 3600)) \<longrightarrow> hd (pad bi (?t div 3600)) \<noteq> CHR ''0''"
    using h53 by (simp add: pad_no_extra_zero)
  moreover have "dec_val (pad bi (?t div 3600)) = ?t div 3600" using h53 by (rule pad_val)
  moreover have "dec_val (pad bi (?t mod 3600 div 60)) = ?t mod 3600 div 60"
    using m53 by (rule pad_val)
  moreover have "dec_val (pad bi (?t mod 60)) = ?t mod 60" using s53 by (rule pad_val)
  ultimately show ?thesis
    by blast
qed

lemma formatHMS_zero:
  assumes "nearest (bi_round bi)"
  shows "formatHMS bi (Fin 0) = ''00:00:00''"
  using formatHMS_int [OF assms, of 0] by (simp add: pad_0)

lemma formatHMS_3661000:
  assumes "nearest (bi_round bi)"
  shows "formatHMS bi (Fin 3661000) = ''01:01:01''"
  using formatHMS_int [OF assms, of 3661000] by (simp add: pad_1)

lemma fields_zero:
  assumes N: "nearest (bi_round bi)"
    and f: "formatHMS bi d = formatHMS bi (Fin 0)" and t: "total_seconds d = 0"
  shows "\<exists>hh mm ss. formatHMS bi d = hh @ '':'' @ mm @ '':'' @ ss
            \<and> list_all is_digit hh \<and> list_all is_digit mm \<and> list_all is_digit ss
            \<and> 2 \<le> length hh \<and> length mm = 2 \<and> length ss = 2
            \<and> (2 < length hh \<longrightarrow> hd hh \<noteq> CHR ''0'')
            \<and> dec_val hh = total_seconds d div 3600
            \<and> dec_val mm = total_seconds d mod 3600 div 60
            \<and> dec_val ss = total_seconds d mod 60"
proof -
  have "formatHMS bi d = ''00'' @ '':'' @ ''00'' @ '':'' @ ''00''"
    using f formatHMS_zero [OF N] by simp
  moreover have "list_all is_digit ''00''" "dec_val ''00'' = 0" "length ''00'' = 2"
    by (simp_all add: is_digit_def dec_val_def digit_val_def)
  ultimately show ?thesis
    unfolding t by (intro exI [of _ "''00''"]) simp
qed

text \<open>
  C4 (as amended). With rounding to the nearest double: let the duration be \<open>max(d, 0)\<close>,
  or zero when \<open>d\<close> is not finite, and let its whole seconds be split into hours, minutes
  and seconds. For every input that is not finite, or negative, or a double from 0 up to
  \<open>2^53\<close> ms, \<open>formatHMS(d)\<close> is \<open>HH:MM:SS\<close> made of decimal digits: minutes and seconds have
  exactly two digits, hours have at least two digits, zero-padded only up to two and not
  clamped, and the three fields read back as the truncated hours, minutes and seconds. In
  particular \<open>formatHMS(-5)\<close>, \<open>formatHMS(0)\<close>, \<open>formatHMS(NaN)\<close> and the two infinities
  give \<open>"00:00:00"\<close>, and \<open>formatHMS(3661000)\<close> is \<open>"01:01:01"\<close>. (Far above that range the
  digits printed are no longer those of the truncated hours.)
\<close>

theorem formatHMS_fields:
  assumes "nearest (bi_round bi)"
    and "d = NaN \<or> d = PosInf \<or> d = NegInf \<or> (\<exists>x. d = Fin x \<and> x < 0)
         \<or> (d = Fin (real m / 2 ^ j) \<and> m \<le> 2 ^ 53)"
  shows "(\<exists>hh mm ss. formatHMS bi d = hh @ '':'' @ mm @ '':'' @ ss
            \<and> list_all is_digit hh \<and> list_all is_digit mm \<and> list_all is_digit ss
            \<and> 2 \<le> length hh \<and> length mm = 2 \<and> length ss = 2
            \<and> (2 < length hh \<longrightarrow> hd hh \<noteq> CHR ''0'')
            \<and> dec_val hh = total_seconds d div 3600
            \<and> dec_val mm = total_seconds d mod 3600 div 60
            \<and> dec_val ss = total_seconds d mod 60)
       \<and> formatHMS bi (Fin (-5)) = ''00:00:00'' \<and> formatHMS bi (Fin 0) = ''00:00:00''
       \<and> formatHMS bi NaN = ''00:00:00'' \<and> formatHMS bi PosInf = ''00:00:00''
       \<and> formatHMS bi NegInf = ''00:00:00'' \<and> formatHMS bi (Fin 3661000) = ''01:01:01''"
proof -
  note N = assms(1)
  have fields: "\<exists>hh mm ss. formatHMS bi d = hh @ '':'' @ mm @ '':'' @ ss
            \<and> list_all is_digit hh \<and> list_all is_digit mm \<and> list_all is_digit ss
            \<and> 2 \<le> length hh \<and> length mm = 2 \<and> length ss = 2
            \<and> (2 < length hh \<longrightarrow> hd hh \<noteq> CHR ''0'')
            \<and> dec_val hh = total_seconds d div 3600
            \<and> dec_val mm = total_seconds d mod 3600 div 60
            \<and> dec_val ss = total_seconds d mod 60"
  proof -
    consider "d = NaN" | "d = PosInf" | "d = NegInf" | x where "d = Fin x" "x < 0"
      | "d = Fin (real m / 2 ^ j)" "m \<le> 2 ^ 53"
      using assms(2) by blast
    then show ?thesis
    proof cases
      case 1
      then show ?thesis
        using fields_zero [OF N, of d] by (simp add: formatHMS_clamped total_seconds_clamped)
    next
      case 2
      then show ?thesis
        using fields_zero [OF N, of d] by (simp add: formatHMS_clamped total_seconds_clamped)
    next
      case 3
      then show ?thesis
        using fields_zero [OF N, of d] by (simp add: formatHMS_clamped total_seconds_clamped)
    next
      case 4
      then show ?thesis
        using fields_zero [OF N, of d] by (simp add: formatHMS_clamped total_seconds_clamped)
    next
      case 5
      then show ?thesis
        using fields_double [OF N, of m j] by simp
    qed
  qed
  have ex: "formatHMS bi (Fin (-5)) = ''00:00:00''" "formatHMS bi (Fin 0) = ''00:00:00''"
    "formatHMS bi NaN = ''00:00:00''" "formatHMS bi PosInf = ''00:00:00''"
    "formatHMS bi NegInf = ''00:00:00''" "formatHMS bi (Fin 3661000) = ''01:01:01''"
    using formatHMS_zero [OF N] formatHMS_3661000 [OF N]
    by (simp_all add: formatHMS_clamped)
  show ?thesis
    using fields ex by blast
qed

lemma pad_100: "pad bi 100 = ''100''"
  by (simp add: pad_plain dec_small dec_large digit_char_def)

theorem formatHMS_fields_witness:
  "nearest (bi_round sample_builtins)
   \<and> formatHMS sample_builtins (Fin 360000000) = ''100:00:00''
   \<and> (\<exists>hh mm ss. formatHMS sample_builtins (Fin 360000000) = hh @ '':'' @ mm @ '':'' @ ss
         \<and> length hh = 3 \<and> length mm = 2 \<and> length ss = 2
         \<and> dec_val hh = 100 \<and> dec_val mm = 0 \<and> dec_val ss = 0)"
proof -
  have h: "Fin 360000000 = NaN \<or> Fin 360000000 = PosInf \<or> Fin 360000000 = NegInf
       \<or> (\<exists>x. Fin 360000000 = Fin x \<and> x < 0)
       \<or> (Fin 360000000 = Fin (real 360000000 / 2 ^ 0) \<and> (360000000::nat) \<le> 2 ^ 53)"
    by simp
  have t: "total_seconds (Fin 360000000) = 360000"
    by (simp add: total_seconds_def clamp_ms_def)
  have v: "formatHMS sample_builtins (Fin 360000000) = ''100:00:00''"
    using formatHMS_int [OF nearest_sample, of 360000000] by (simp add: pad_100 pad_0)
  from formatHMS_fields [OF nearest_sample h] obtain hh mm ss where
    f: "formatHMS sample_builtins (Fin 360000000) = hh @ '':'' @ mm @ '':'' @ ss"
    and l: "length mm = 2" "length ss = 2"
    and d: "dec_val hh = total_seconds (Fin 360000000) div 3600"
      "dec_val mm = total_seconds (Fin 360000000) mod 3600 div 60"
      "dec_val ss = total_seconds (Fin 360000000) mod 60"
    by blast
  have "length (formatHMS sample_builtins (Fin 360000000)) = 9"
    by (simp add: v)
  with f l have "length hh = 3"
    by simp
  with f l d have "\<exists>hh mm ss. formatHMS sample_builtins (Fin 360000000) = hh @ '':'' @ mm @ '':'' @ ss
         \<and> length hh = 3 \<and> length mm = 2 \<and> length ss = 2
         \<and> dec_val hh = 100 \<and> dec_val mm = 0 \<and> dec_val ss = 0"
    by (simp add: t) blast
  with nearest_sample v show ?thesis
    by blast
qed

text \<open>
  The claim, stated for every numeric input, fails at \<open>3600000 * 2^60\<close> ms, where every
  value of the computation is a double: the hours are \<open>2^60 = 1152921504606846976\<close>, and
  the hours field printed is \<open>1152921504606847000\<close>.
\<close>

theorem huge_hours_rounded:
  "formatHMS sample_builtins (Fin (3600000 * 2 ^ 60)) = ''1152921504606847000:00:00''
   \<and> total_seconds (Fin (3600000 * 2 ^ 60)) div 3600 = 1152921504606846976"
proof -
  have p: "pad sample_builtins (2 ^ 60) = ''1152921504606847000''"
    by (simp add: pad_def padStart_def String_num_def sample_builtins_def sample_String_big_def)
  have "formatHMS sample_builtins (Fin (3600000 * 2 ^ 60))
          = pad sample_builtins (2 ^ 60) @ '':'' @ pad sample_builtins 0 @ '':''
              @ pad sample_builtins 0"
    by (simp add: formatHMS_def sample_builtins_def)
  then have "formatHMS sample_builtins (Fin (3600000 * 2 ^ 60)) = ''1152921504606847000:00:00''"
    by (simp only: p pad_0) simp
  moreover have "total_seconds (Fin (3600000 * 2 ^ 60)) div 3600 = 1152921504606846976"
    by (simp add: total_seconds_def clamp_ms_def)
  ultimately show ?thesis
    by blast
qed


end
